theory Spec2Isabelle
  imports Complex_Main "HOL-Library.Sublist"
begin

section \<open>JavaScript strings and Maps\<close>

text \<open>
  Strings are character lists. \<open>split_on c s\<close> is \<open>s.split(c)\<close> for a one-character
  separator: the empty string splits into one empty piece, and a separator at either end
  leaves an empty piece there. \<open>join_with sep xs\<close> is \<open>xs.join(sep)\<close>.
\<close>

fun split_on :: "char \<Rightarrow> string \<Rightarrow> string list" where
  "split_on c [] = [[]]"
| "split_on c (x # xs) =
     (if x = c then [] # split_on c xs
      else (case split_on c xs of [] \<Rightarrow> [[x]] | w # ws \<Rightarrow> (x # w) # ws))"

fun join_with :: "string \<Rightarrow> string list \<Rightarrow> string" where
  "join_with sep [] = []"
| "join_with sep [x] = x"
| "join_with sep (x # y # ys) = x @ sep @ join_with sep (y # ys)"

definition includes_char :: "char \<Rightarrow> string \<Rightarrow> bool" where
  "includes_char c s = (c \<in> set s)"

definition startsWith :: "string \<Rightarrow> string \<Rightarrow> bool" where
  "startsWith s p = (take (length p) s = p)"

definition endsWith :: "string \<Rightarrow> string \<Rightarrow> bool" where
  "endsWith s p = (length p \<le> length s \<and> drop (length s - length p) s = p)"

text \<open>
  \<open>x.includes(':') ? x.split(':')[1] : x\<close>, the idiom the resolver uses everywhere to
  drop a module prefix. With a colon in \<open>x\<close> the split has at least two pieces, so the
  fallback of the \<open>case\<close> is never reached.
\<close>

definition afterColon :: "string \<Rightarrow> string" where
  "afterColon x =
     (if includes_char CHR '':'' x
      then (case split_on CHR '':'' x of _ # b # _ \<Rightarrow> b | _ \<Rightarrow> [])
      else x)"

text \<open>\<open>identifier.replace(/^\//, '')\<close>: one leading slash is removed.\<close>

fun dropLeadingSlash :: "string \<Rightarrow> string" where
  "dropLeadingSlash [] = []"
| "dropLeadingSlash (x # xs) = (if x = CHR ''/'' then xs else x # xs)"

text \<open>
  A JavaScript \<open>Map\<close> is an association list in insertion order with distinct keys.
  \<open>m.set(k, v)\<close> replaces the value in place when the key is present and appends the
  entry otherwise; \<open>m.get(k)\<close> is \<open>map_of m k\<close> (\<open>None\<close> for \<open>undefined\<close>) and
  \<open>m.has(k)\<close> is \<open>map_of m k \<noteq> None\<close>.
\<close>

fun map_set :: "('k \<times> 'v) list \<Rightarrow> 'k \<Rightarrow> 'v \<Rightarrow> ('k \<times> 'v) list" where
  "map_set [] k v = [(k, v)]"
| "map_set ((k', v') # m) k v =
     (if k' = k then (k, v) # m else (k', v') # map_set m k v)"

definition map_has :: "('k \<times> 'v) list \<Rightarrow> 'k \<Rightarrow> bool" where
  "map_has m k = (map_of m k \<noteq> None)"

text \<open>\<open>for (const [k, v] of src) dst.set(k, v)\<close>.\<close>

definition set_all :: "('k \<times> 'v) list \<Rightarrow> ('k \<times> 'v) list \<Rightarrow> ('k \<times> 'v) list" where
  "set_all dst src = fold (\<lambda>(k, v) m. map_set m k v) src dst"

text \<open>\<open>[...new Set(xs)]\<close>: the first occurrence of each element, in order.\<close>

definition uniq :: "'a list \<Rightarrow> 'a list" where
  "uniq xs = fold (\<lambda>x acc. if x \<in> set acc then acc else acc @ [x]) xs []"

section \<open>JavaScript numbers\<close>

text \<open>
  A SID is read from a .sid file by \<open>JSON.parse\<close>, so it is an IEEE 754 double. SIDs
  are integers, and the model holds a SID as the integer the double is. The difference and
  the sum of two doubles are the exact result rounded to the nearest double, a tie going to
  the even significand: \<open>toDouble n\<close> is the double nearest to the integer \<open>n\<close>, which
  keeps the 53 leading bits of \<open>n\<close>. (SIDs are 64-bit quantities, far below the
  magnitude at which a double overflows.) \<open>safeSid\<close> holds of the non-negative safe
  integers, those below \<open>2 ^ 53\<close>.
\<close>

fun bitLength :: "nat \<Rightarrow> nat" where
  "bitLength n = (if n = 0 then 0 else Suc (bitLength (n div 2)))"

declare bitLength.simps [simp del]

definition toDouble :: "int \<Rightarrow> int" where
  "toDouble n =
     (let a = nat \<bar>n\<bar>;
          e = bitLength a - 53;
          q = a div 2 ^ e;
          r = a mod 2 ^ e;
          q' = (if 2 ^ e < 2 * r \<or> (2 * r = 2 ^ e \<and> odd q) then q + 1 else q)
      in sgn n * int (q' * 2 ^ e))"

definition jsSub :: "int \<Rightarrow> int \<Rightarrow> int" where
  "jsSub a b = toDouble (a - b)"

definition jsAdd :: "int \<Rightarrow> int \<Rightarrow> int" where
  "jsAdd a b = toDouble (a + b)"

definition safeSid :: "int \<Rightarrow> bool" where
  "safeSid sid = (0 \<le> sid \<and> sid < 2 ^ 53)"

definition safeSids :: "('k \<times> int) list \<Rightarrow> bool" where
  "safeSids m = list_all (\<lambda>entry. safeSid (snd entry)) m"

section \<open>The SID tree (sid-resolver.js)\<close>

text \<open>
  An item of a .sid file. A missing \<open>namespace\<close> or \<open>identifier\<close> is the empty string
  (both are read with \<open>|| 'data'\<close> and \<open>|| ''\<close>). A SID is an integer-valued double.
\<close>

record sid_item =
  item_sid :: int
  item_namespace :: string
  item_identifier :: string

record node_info =
  ni_sid :: int
  ni_parent :: "int option"
  ni_deltaSid :: int
  ni_depth :: nat
  ni_prefixedPath :: string

record sidTree =
  pathToSid :: "(string \<times> int) list"
  sidToPath :: "(int \<times> string) list"
  prefixedPathToSid :: "(string \<times> int) list"
  sidToPrefixedPath :: "(int \<times> string) list"
  pathToPrefixed :: "(string \<times> string) list"
  identityToSid :: "(string \<times> int) list"
  sidToIdentity :: "(int \<times> string) list"
  nodeInfo :: "(string \<times> node_info) list"
  leafToPaths :: "(string \<times> string list) list"
  aliasesAugmented :: bool

definition emptyTree :: sidTree where
  "emptyTree = \<lparr> pathToSid = [], sidToPath = [], prefixedPathToSid = [],
     sidToPrefixedPath = [], pathToPrefixed = [], identityToSid = [], sidToIdentity = [],
     nodeInfo = [], leafToPaths = [], aliasesAugmented = False \<rparr>"

text \<open>\<open>stripPrefixes\<close>: the module prefix of every segment is removed.\<close>

definition stripPrefixes :: "string \<Rightarrow> string" where
  "stripPrefixes path =
     (if path = [] then []
      else join_with ''/'' (map afterColon (split_on CHR ''/'' path)))"

text \<open>
  \<open>processSidItem\<close>. The \<open>switch\<close> yields the stripped path and the prefixed path
  (\<open>None\<close> for \<open>null\<close>) and, for an identity, fills the identity maps; then the leaf index
  and the path maps are filled. A prefixed path that is the empty string is falsy and is
  not stored.
\<close>

definition item_ns :: "sid_item \<Rightarrow> string" where
  "item_ns item = (if item_namespace item = [] then ''data'' else item_namespace item)"

definition item_paths :: "sid_item \<Rightarrow> string \<times> string option" where
  "item_paths item =
     (let identifier = item_identifier item; ns = item_ns item in
      if ns = ''module'' then (identifier, None)
      else if ns = ''identity'' then
        (''identity:'' @ afterColon identifier, Some (''identity:'' @ identifier))
      else if ns = ''feature'' then
        (''feature:'' @ afterColon identifier, Some (''feature:'' @ identifier))
      else
        (join_with ''/'' (map afterColon (split_on CHR ''/'' (dropLeadingSlash identifier))),
         Some (dropLeadingSlash identifier)))"

definition registerIdentity :: "sid_item \<Rightarrow> sidTree \<Rightarrow> sidTree" where
  "registerIdentity item tree =
     (if item_ns item = ''identity'' then
        tree\<lparr> identityToSid :=
                 map_set (map_set (identityToSid tree) (afterColon (item_identifier item))
                            (item_sid item))
                   (item_identifier item) (item_sid item),
               sidToIdentity :=
                 map_set (sidToIdentity tree) (item_sid item)
                   (afterColon (item_identifier item)) \<rparr>
      else tree)"

definition indexLeaf :: "sid_item \<Rightarrow> string \<Rightarrow> sidTree \<Rightarrow> sidTree" where
  "indexLeaf item yangPath tree =
     (if item_ns item = ''data'' \<and> yangPath \<noteq> [] then
        (let leaf = last (split_on CHR ''/'' yangPath) in
         if leaf \<noteq> [] then
           tree\<lparr> leafToPaths :=
             map_set (leafToPaths tree) leaf
               ((case map_of (leafToPaths tree) leaf of None \<Rightarrow> [] | Some ps \<Rightarrow> ps)
                  @ [yangPath]) \<rparr>
         else tree)
      else tree)"

definition processSidItem :: "sid_item \<Rightarrow> sidTree \<Rightarrow> sidTree" where
  "processSidItem item tree0 =
     (let sid = item_sid item;
          (yangPath, prefixedPath) = item_paths item;
          tree1 = registerIdentity item tree0;
          tree2 = indexLeaf item yangPath tree1;
          tree3 = tree2\<lparr> pathToSid := map_set (pathToSid tree2) yangPath sid,
                        sidToPath := map_set (sidToPath tree2) sid yangPath \<rparr>
      in case prefixedPath of
           None \<Rightarrow> tree3
         | Some pp \<Rightarrow>
             if pp = [] then tree3
             else tree3\<lparr> prefixedPathToSid := map_set (prefixedPathToSid tree3) pp sid,
                         sidToPrefixedPath := map_set (sidToPrefixedPath tree3) sid pp,
                         pathToPrefixed := map_set (pathToPrefixed tree3) yangPath pp \<rparr>)"

text \<open>
  \<open>buildSidTree\<close> on the items of one parsed file: \<open>items.forEach(processSidItem)\<close>
  from the empty tree. A file that cannot be read or parsed is \<open>None\<close>; the function
  then throws, which is the \<open>Inl\<close> result.
\<close>

datatype load_error = SidFileParsingError | YangExtractError | CacheVersionMismatch | CacheUnreadable
  | ReaddirFailed | NoValidSids | NotInstanceIdentifier | InputFileNotFound
  | YangCacheNotFound | ConnectFailed | NotReady | IFetchFailed

definition buildItems :: "sid_item list \<Rightarrow> sidTree" where
  "buildItems items = fold processSidItem items emptyTree"

definition buildSidTree :: "sid_item list option \<Rightarrow> load_error + sidTree" where
  "buildSidTree file =
     (case file of None \<Rightarrow> Inl SidFileParsingError | Some items \<Rightarrow> Inr (buildItems items))"



section \<open>Merging the per-file trees and recomputing parents\<close>

text \<open>
  The merge loops of \<open>loadYangInputs\<close> (step 2) copy every map of a per-file tree into
  the merged tree with \<open>set\<close> and merge the leaf index with
  \<open>[...new Set([...existing, ...paths])]\<close>. \<open>loadMultipleSidFiles\<close> does the same and
  copies \<open>nodeInfo\<close> as well.
\<close>

definition mergeLeaf :: "string \<times> string list \<Rightarrow> (string \<times> string list) list
    \<Rightarrow> (string \<times> string list) list" where
  "mergeLeaf entry m =
     (case entry of (leaf, paths) \<Rightarrow>
        map_set m leaf
          (uniq ((case map_of m leaf of None \<Rightarrow> [] | Some existing \<Rightarrow> existing) @ paths)))"

definition mergeInto :: "sidTree \<Rightarrow> sidTree \<Rightarrow> sidTree" where
  "mergeInto tree merged =
     merged\<lparr> pathToSid := set_all (pathToSid merged) (pathToSid tree),
             sidToPath := set_all (sidToPath merged) (sidToPath tree),
             prefixedPathToSid := set_all (prefixedPathToSid merged) (prefixedPathToSid tree),
             sidToPrefixedPath := set_all (sidToPrefixedPath merged) (sidToPrefixedPath tree),
             pathToPrefixed := set_all (pathToPrefixed merged) (pathToPrefixed tree),
             identityToSid := set_all (identityToSid merged) (identityToSid tree),
             sidToIdentity := set_all (sidToIdentity merged) (sidToIdentity tree),
             leafToPaths := fold mergeLeaf (leafToPaths tree) (leafToPaths merged) \<rparr>"

definition mergeIntoMulti :: "sidTree \<Rightarrow> sidTree \<Rightarrow> sidTree" where
  "mergeIntoMulti tree merged =
     (mergeInto tree merged)\<lparr> nodeInfo := set_all (nodeInfo merged) (nodeInfo tree) \<rparr>"

text \<open>
  Step 3, the parent loop. \<open>pathParts\<close> is \<open>path.split('/').filter(p => p)\<close>;
  \<open>findParent m parts i\<close> is the loop \<open>for (i = ...; i > 0; i--)\<close> that looks the
  joined first \<open>i\<close> parts up and stops at the first hit.
\<close>

definition isSynthetic :: "string \<Rightarrow> bool" where
  "isSynthetic path = (startsWith path ''identity:'' \<or> startsWith path ''feature:'')"

definition pathParts :: "string \<Rightarrow> string list" where
  "pathParts path = filter (\<lambda>p. p \<noteq> []) (split_on CHR ''/'' path)"

fun findParent :: "(string \<times> int) list \<Rightarrow> string list \<Rightarrow> nat \<Rightarrow> int option" where
  "findParent m parts 0 = None"
| "findParent m parts (Suc i) =
     (case map_of m (join_with ''/'' (take (Suc i) parts)) of
        Some sid \<Rightarrow> Some sid
      | None \<Rightarrow> findParent m parts i)"

definition makeNodeInfo :: "sidTree \<Rightarrow> string \<Rightarrow> int \<Rightarrow> node_info" where
  "makeNodeInfo t path sid =
     (let parts = pathParts path;
          parent = findParent (pathToSid t) parts (length parts - 1);
          bySid = (case map_of (sidToPrefixedPath t) sid of
                     None \<Rightarrow> path
                   | Some q \<Rightarrow> if q \<noteq> [] then q else path)
      in \<lparr> ni_sid = sid,
           ni_parent = parent,
           ni_deltaSid = (case parent of None \<Rightarrow> sid | Some p \<Rightarrow> jsSub sid p),
           ni_depth = length parts,
           ni_prefixedPath = (case map_of (pathToPrefixed t) path of
                                None \<Rightarrow> bySid
                              | Some pp \<Rightarrow> if pp \<noteq> [] then pp else bySid) \<rparr>)"

definition recalcStep :: "string \<times> int \<Rightarrow> sidTree \<Rightarrow> sidTree" where
  "recalcStep entry t =
     (case entry of (path, sid) \<Rightarrow>
        if isSynthetic path then t
        else t\<lparr> nodeInfo := map_set (nodeInfo t) path (makeNodeInfo t path sid) \<rparr>)"

definition recalculateParents :: "sidTree \<Rightarrow> sidTree" where
  "recalculateParents t = fold recalcStep (pathToSid t) t"

text \<open>\<open>Promise.all\<close> over the per-file builds: the first failure rejects the whole load.\<close>

fun allOrError :: "('e + 'a) list \<Rightarrow> 'e + 'a list" where
  "allOrError [] = Inr []"
| "allOrError (Inl e # rs) = Inl e"
| "allOrError (Inr x # rs) = (case allOrError rs of Inl e \<Rightarrow> Inl e | Inr xs \<Rightarrow> Inr (x # xs))"

definition loadMultipleSidFiles :: "sid_item list option list \<Rightarrow> load_error + sidTree" where
  "loadMultipleSidFiles files =
     (case allOrError (map buildSidTree files) of
        Inl e \<Rightarrow> Inl e
      | Inr trees \<Rightarrow> Inr (recalculateParents (fold mergeIntoMulti trees emptyTree)))"

section \<open>Path resolution\<close>

text \<open>
  \<open>score\<close> is the inner loop of \<open>resolvePathToSid\<close>: it counts the leading positions at
  which the context segments and the candidate's segments agree. \<open>pickBest\<close> is the
  loop over the candidates with its two variables \<open>bestMatch\<close> and \<open>highestScore\<close>
  (starting at \<open>null\<close> and \<open>-1\<close>).
\<close>

fun score :: "string list \<Rightarrow> string list \<Rightarrow> nat" where
  "score (c # cs) (d # ds) = (if c = d then Suc (score cs ds) else 0)"
| "score _ _ = 0"

definition candidateScore :: "string list \<Rightarrow> string \<Rightarrow> nat" where
  "candidateScore contextSegments candidate =
     score contextSegments (split_on CHR ''/'' candidate)"

definition pickStep :: "string list \<Rightarrow> string \<Rightarrow> string option \<times> int \<Rightarrow> string option \<times> int" where
  "pickStep contextSegments candidate st =
     (case st of (bestMatch, highestScore) \<Rightarrow>
        if int (candidateScore contextSegments candidate) > highestScore
        then (Some candidate, int (candidateScore contextSegments candidate))
        else (bestMatch, highestScore))"

definition pickBest :: "string list \<Rightarrow> string list \<Rightarrow> string option" where
  "pickBest contextSegments candidatePaths =
     fst (fold (pickStep contextSegments) candidatePaths (None, -1))"

definition contextSegmentsOf :: "string \<Rightarrow> string list" where
  "contextSegmentsOf contextPath =
     filter (\<lambda>s. s \<noteq> []) (split_on CHR ''/'' (stripPrefixes contextPath))"

definition fuzzyResolve :: "string \<Rightarrow> sidTree \<Rightarrow> string \<Rightarrow> int option" where
  "fuzzyResolve path t contextPath =
     (case map_of (leafToPaths t) (stripPrefixes path) of
        None \<Rightarrow> None
      | Some candidatePaths \<Rightarrow>
          (case candidatePaths of
             [] \<Rightarrow> None
           | [only] \<Rightarrow> map_of (pathToSid t) only
           | first # _ \<Rightarrow>
               (case pickBest (contextSegmentsOf contextPath) candidatePaths of
                  None \<Rightarrow> map_of (pathToSid t) first
                | Some bestMatch \<Rightarrow>
                    if bestMatch \<noteq> [] then map_of (pathToSid t) bestMatch
                    else map_of (pathToSid t) first)))"

definition fullPathOf :: "string \<Rightarrow> string \<Rightarrow> string" where
  "fullPathOf path contextPath =
     (if contextPath \<noteq> [] then contextPath @ ''/'' @ path else path)"

definition resolvePathToSid :: "string \<Rightarrow> sidTree \<Rightarrow> string \<Rightarrow> int option" where
  "resolvePathToSid path t contextPath =
     (if map_has (prefixedPathToSid t) (fullPathOf path contextPath)
      then map_of (prefixedPathToSid t) (fullPathOf path contextPath)
      else if map_has (pathToSid t) (stripPrefixes (fullPathOf path contextPath))
      then map_of (pathToSid t) (stripPrefixes (fullPathOf path contextPath))
      else fuzzyResolve path t contextPath)"

section \<open>Alias augmentation\<close>

text \<open>
  \<open>nameSet\<close> is the set the function builds from \<open>choiceNames\<close> (and from
  \<open>caseNames\<close>): every non-empty name and its non-empty bare form. \<open>bareSeg\<close> is
  \<open>normalize(segment) || segment\<close>.
\<close>

definition nameSet :: "string set \<Rightarrow> string set" where
  "nameSet names = (names - {[]}) \<union> (afterColon ` (names - {[]}) - {[]})"

definition bareSeg :: "string \<Rightarrow> string" where
  "bareSeg segment = (if afterColon segment \<noteq> [] then afterColon segment else segment)"

definition keepStep :: "string set \<Rightarrow> string set \<Rightarrow> string \<Rightarrow> string list \<Rightarrow> string list" where
  "keepStep choiceNameSet caseNameSet segment aliasSegments =
     (if segment \<in> choiceNameSet \<or> bareSeg segment \<in> choiceNameSet then aliasSegments
      else if segment \<in> caseNameSet \<or> bareSeg segment \<in> caseNameSet then aliasSegments
      else aliasSegments @ [segment])"

definition dedupeStep :: "string \<Rightarrow> string list \<Rightarrow> string list" where
  "dedupeStep segment deduped =
     (if deduped \<noteq> [] \<and> last deduped \<noteq> []
         \<and> (last deduped = segment \<or> bareSeg (last deduped) = bareSeg segment)
      then deduped
      else deduped @ [segment])"

definition buildAlias :: "string set \<Rightarrow> string set \<Rightarrow> string \<Rightarrow> string option" where
  "buildAlias choiceNameSet caseNameSet prefixedPath =
     (if prefixedPath = [] then None
      else
        (let segments = filter (\<lambda>s. s \<noteq> []) (split_on CHR ''/'' prefixedPath);
             aliasSegments = fold (keepStep choiceNameSet caseNameSet) segments [];
             deduped = fold dedupeStep aliasSegments [];
             aliasPath = join_with ''/'' deduped
         in if aliasPath \<noteq> [] \<and> aliasPath \<noteq> prefixedPath then Some aliasPath else None))"

definition aliasStep :: "string set \<Rightarrow> string set \<Rightarrow> int \<times> string \<Rightarrow> sidTree \<Rightarrow> sidTree" where
  "aliasStep choiceNameSet caseNameSet entry t =
     (case entry of (sid, canonicalPrefixed) \<Rightarrow>
        (case buildAlias choiceNameSet caseNameSet canonicalPrefixed of
           None \<Rightarrow> t
         | Some aliasPrefixed \<Rightarrow>
             (let t1 = (if \<not> map_has (prefixedPathToSid t) aliasPrefixed
                        then t\<lparr> prefixedPathToSid :=
                                  map_set (prefixedPathToSid t) aliasPrefixed sid \<rparr>
                        else t);
                  aliasStripped = stripPrefixes aliasPrefixed
              in case map_of (pathToSid t1) aliasStripped of
                   None \<Rightarrow>
                     t1\<lparr> pathToSid := map_set (pathToSid t1) aliasStripped sid,
                         pathToPrefixed :=
                           map_set (pathToPrefixed t1) aliasStripped aliasPrefixed \<rparr>
                 | Some existingSid \<Rightarrow> t1)))"

definition augmentSidTreeWithAliases :: "sidTree \<Rightarrow> string set \<Rightarrow> string set \<Rightarrow> sidTree" where
  "augmentSidTreeWithAliases t choiceNames caseNames =
     (if aliasesAugmented t then t
      else (fold (aliasStep (nameSet choiceNames) (nameSet caseNames)) (sidToPrefixedPath t) t)
             \<lparr> aliasesAugmented := True \<rparr>)"

section \<open>Alias augmentation, as the specification words it\<close>

text \<open>
  The alias of a prefixed path, following the specification: the segments whose bare name
  is among the names to drop are left out, consecutive segments with the same bare name
  are collapsed to the first of them, and the result counts only when it is non-empty and
  differs from the path. Names are compared by bare name: \<open>bareNames\<close> is the set of
  the bare forms of the non-empty names.
\<close>

definition bareNames :: "string set \<Rightarrow> string set" where
  "bareNames names = bareSeg ` (names - {[]})"

fun collapseBare :: "string list \<Rightarrow> string list" where
  "collapseBare [] = []"
| "collapseBare [x] = [x]"
| "collapseBare (x # y # xs) =
     (if bareSeg x = bareSeg y then collapseBare (x # xs) else x # collapseBare (y # xs))"

definition specAlias :: "string set \<Rightarrow> string \<Rightarrow> string option" where
  "specAlias dropped prefixedPath =
     (let aliasPath = join_with ''/''
            (collapseBare (filter (\<lambda>s. bareSeg s \<notin> dropped) (pathParts prefixedPath)))
      in if aliasPath \<noteq> [] \<and> aliasPath \<noteq> prefixedPath then Some aliasPath else None)"

section \<open>Parents and Delta-SIDs, as the specification words them\<close>

text \<open>
  The ancestor paths of a path are the proper non-empty prefixes of its list of non-empty
  segments, joined with a slash, shortest first. The longest known ancestor is the last
  of them that is a key of the map. \<open>nodeInfoAgrees\<close> says that every non-synthetic
  entry of \<open>pathToSid\<close> has a \<open>nodeInfo\<close> entry with its SID, with the SID of the longest
  known ancestor as parent, and with \<open>deltaSid\<close> the value of \<open>sid - parent\<close> (the SID itself
  without a parent). \<open>deltaInvariant\<close> says that every \<open>nodeInfo\<close> entry with a parent
  has \<open>deltaSid + parent = sid\<close>, both as integers and as JavaScript evaluates
  \<open>deltaSid + parent == sid\<close>.
\<close>

definition ancestorPaths :: "string \<Rightarrow> string list" where
  "ancestorPaths p = map (\<lambda>i. join_with ''/'' (take i (pathParts p))) [1..<length (pathParts p)]"

definition longestKnownAncestor :: "(string \<times> int) list \<Rightarrow> string \<Rightarrow> string option" where
  "longestKnownAncestor m p =
     (case filter (map_has m) (rev (ancestorPaths p)) of [] \<Rightarrow> None | a # _ \<Rightarrow> Some a)"

definition nodeInfoAgrees :: "sidTree \<Rightarrow> bool" where
  "nodeInfoAgrees t =
     list_all (\<lambda>entry. isSynthetic (fst entry) \<or>
        (case map_of (nodeInfo t) (fst entry) of
           None \<Rightarrow> False
         | Some info \<Rightarrow>
             ni_sid info = snd entry
             \<and> ni_parent info =
                 (case longestKnownAncestor (pathToSid t) (fst entry) of
                    None \<Rightarrow> None
                  | Some a \<Rightarrow> map_of (pathToSid t) a)
             \<and> ni_deltaSid info =
                 (case ni_parent info of None \<Rightarrow> snd entry | Some q \<Rightarrow> jsSub (snd entry) q)))
       (pathToSid t)"

definition deltaInvariant :: "sidTree \<Rightarrow> bool" where
  "deltaInvariant t =
     list_all (\<lambda>entry. case ni_parent (snd entry) of
                 None \<Rightarrow> True
               | Some q \<Rightarrow> ni_deltaSid (snd entry) + q = ni_sid (snd entry)
                           \<and> jsAdd (ni_deltaSid (snd entry)) q = ni_sid (snd entry))
       (nodeInfo t)"

section \<open>What the builder guarantees\<close>

text \<open>
  Two facts that hold of every tree the builder makes and that the statements below
  rely on: every key of \<open>pathToPrefixed\<close> is a key of \<open>pathToSid\<close>, and every path of the
  leaf index is a key of \<open>pathToSid\<close>.
\<close>

definition prefixedKeysKnown :: "sidTree \<Rightarrow> bool" where
  "prefixedKeysKnown t = list_all (\<lambda>entry. map_has (pathToSid t) (fst entry)) (pathToPrefixed t)"

definition leafIndexKnown :: "sidTree \<Rightarrow> bool" where
  "leafIndexKnown t =
     list_all (\<lambda>entry. list_all (map_has (pathToSid t)) (snd entry)) (leafToPaths t)"

text \<open>The paths the leaf index holds.\<close>

definition indexedPaths :: "(string \<times> string list) list \<Rightarrow> string set" where
  "indexedPaths m = (\<Union>entry \<in> set m. set (snd entry))"

section \<open>The type table and the loader (input-loader.js)\<close>

text \<open>
  Type information is a loose object: every field may be absent. \<open>ti_rest\<close> stands for
  the fields the loader only copies. The per-file tables come from \<open>extractYangTypes\<close>,
  which is not part of the loader; they are inputs here. An absent \<open>choiceNames\<close>,
  \<open>caseNames\<close> or \<open>nodeOrders\<close> of a per-file table is the empty collection (the
  merge skips it).
\<close>

record enumInfo =
  nameToValue :: "(string \<times> int) list"
  valueToName :: "(int \<times> string) list"

record 'r typeInfo =
  ti_type :: "string option"
  ti_enum :: "enumInfo option"
  ti_original :: "string option"
  ti_rest :: "'r option"

record ('r, 'i, 'o) typeTable =
  types :: "(string \<times> 'r typeInfo) list"
  identities :: "(string \<times> 'i) list"
  typedefs :: "(string \<times> 'r typeInfo) list"
  choiceNames :: "string set"
  caseNames :: "string set"
  nodeOrders :: "(string \<times> 'o) list"

definition emptyTypeTable :: "('r, 'i, 'o) typeTable" where
  "emptyTypeTable = \<lparr> types = [], identities = [], typedefs = [], choiceNames = {},
     caseNames = {}, nodeOrders = [] \<rparr>"

definition emptyTypeInfo :: "'r typeInfo" where
  "emptyTypeInfo = \<lparr> ti_type = None, ti_enum = None, ti_original = None, ti_rest = None \<rparr>"

definition mergeTypeTable :: "('r, 'i, 'o) typeTable \<Rightarrow> ('r, 'i, 'o) typeTable
    \<Rightarrow> ('r, 'i, 'o) typeTable" where
  "mergeTypeTable table typeTable =
     typeTable\<lparr> types := set_all (types typeTable) (types table),
                identities := set_all (identities typeTable) (identities table),
                typedefs := set_all (typedefs typeTable) (typedefs table),
                choiceNames := choiceNames typeTable \<union> choiceNames table,
                caseNames := caseNames typeTable \<union> caseNames table,
                nodeOrders := set_all (nodeOrders typeTable) (nodeOrders table) \<rparr>"

text \<open>
  Step 6. \<open>mapFromEntries\<close> is \<open>new Map(entries)\<close>. \<open>mergePrefix\<close> is the body of the
  inner loop for one vendor prefix, \<open>mergeTypedefEntry\<close> the body of the outer loop for
  one typedef name (the loop reads the value the map holds when it reaches the name), and
  \<open>mergeVendorTypedefs\<close> the loop over the typedefs; no key is added while it runs. The
  state is the typedef map and the set \<open>mergedTypedefs\<close>.
\<close>

definition vendorPrefixes :: "string list" where
  "vendorPrefixes = [''velocitysp-'', ''mchp-'']"

definition mapFromEntries :: "('k \<times> 'v) list \<Rightarrow> ('k \<times> 'v) list" where
  "mapFromEntries entries = set_all [] entries"

definition mergedEnum :: "enumInfo \<Rightarrow> enumInfo \<Rightarrow> enumInfo" where
  "mergedEnum baseEnum vendorEnum =
     \<lparr> nameToValue = mapFromEntries (nameToValue baseEnum @ nameToValue vendorEnum),
       valueToName = mapFromEntries (valueToName baseEnum @ valueToName vendorEnum) \<rparr>"

definition mergePrefix :: "string \<Rightarrow> 'r typeInfo \<Rightarrow> string
    \<Rightarrow> (string \<times> 'r typeInfo) list \<times> string set
    \<Rightarrow> (string \<times> 'r typeInfo) list \<times> string set" where
  "mergePrefix name typedef pfx st =
     (case st of (tds, mergedTypedefs) \<Rightarrow>
        if startsWith name pfx then
          (let baseName = drop (length pfx) name in
           case map_of tds baseName of
             None \<Rightarrow> (tds, mergedTypedefs)
           | Some baseTypedef \<Rightarrow>
               (case ti_enum baseTypedef of
                  None \<Rightarrow> (tds, mergedTypedefs)
                | Some baseEnum \<Rightarrow>
                    (case ti_enum typedef of
                       None \<Rightarrow> (tds, mergedTypedefs)
                     | Some vendorEnum \<Rightarrow>
                         (map_set tds baseName
                            (typedef\<lparr> ti_enum := Some (mergedEnum baseEnum vendorEnum),
                                      ti_original := Some baseName \<rparr>),
                          insert baseName mergedTypedefs))))
        else (tds, mergedTypedefs))"

definition mergeTypedefEntry :: "string
    \<Rightarrow> (string \<times> 'r typeInfo) list \<times> string set
    \<Rightarrow> (string \<times> 'r typeInfo) list \<times> string set" where
  "mergeTypedefEntry name st =
     (case map_of (fst st) name of
        None \<Rightarrow> st
      | Some typedef \<Rightarrow> fold (mergePrefix name typedef) vendorPrefixes st)"

definition mergeVendorTypedefs :: "(string \<times> 'r typeInfo) list
    \<Rightarrow> (string \<times> 'r typeInfo) list \<times> string set" where
  "mergeVendorTypedefs tds = fold mergeTypedefEntry (map fst tds) (tds, {})"

text \<open>
  The loop that updates the leaf types: an entry whose \<open>original\<close> is a non-empty name
  in \<open>mergedTypedefs\<close> is replaced by \<open>{...mergedTypedef, original}\<close>.
\<close>

definition updateLeafType :: "(string \<times> 'r typeInfo) list \<Rightarrow> string set \<Rightarrow> string
    \<Rightarrow> (string \<times> 'r typeInfo) list \<Rightarrow> (string \<times> 'r typeInfo) list" where
  "updateLeafType tds mergedTypedefs path tys =
     (case map_of tys path of
        None \<Rightarrow> tys
      | Some info \<Rightarrow>
          (case ti_original info of
             None \<Rightarrow> tys
           | Some original \<Rightarrow>
               if original \<noteq> [] \<and> original \<in> mergedTypedefs then
                 map_set tys path
                   ((case map_of tds original of
                       None \<Rightarrow> emptyTypeInfo
                     | Some mergedTypedef \<Rightarrow> mergedTypedef)\<lparr> ti_original := Some original \<rparr>)
               else tys))"

definition updateLeafTypes :: "(string \<times> 'r typeInfo) list \<Rightarrow> string set
    \<Rightarrow> (string \<times> 'r typeInfo) list \<Rightarrow> (string \<times> 'r typeInfo) list" where
  "updateLeafTypes tds mergedTypedefs tys =
     fold (updateLeafType tds mergedTypedefs) (map fst tys) tys"

definition buildTypeTable :: "('r, 'i, 'o) typeTable list \<Rightarrow> ('r, 'i, 'o) typeTable" where
  "buildTypeTable typeTables =
     (let typeTable = fold mergeTypeTable typeTables emptyTypeTable;
          (tds, mergedTypedefs) = mergeVendorTypedefs (typedefs typeTable)
      in typeTable\<lparr> typedefs := tds,
                    types := updateLeafTypes tds mergedTypedefs (types typeTable) \<rparr>)"

text \<open>
  The cache directory as the loader sees it. An entry of the directory has a name, the
  modification time \<open>stat\<close> reports (\<open>None\<close> when \<open>stat\<close> throws), and what parsing it as
  a SID file or extracting it as a YANG module gives (\<open>None\<close> when that throws).
  \<open>mtimeMs\<close> is a number of milliseconds; only its order is used. The cache file is
  \<open>None\<close> when it cannot be read or is not JSON; otherwise it has a \<open>version\<close> field,
  which may hold anything, and the serialized tables (\<open>None\<close> when rebuilding the maps
  from them throws).
\<close>

datatype json_scalar = JNumber int | JString string | JUndefined

record ('r, 'i, 'o) dir_entry =
  de_name :: string
  de_mtime :: "real option"
  de_sid :: "sid_item list option"
  de_yang :: "('r, 'i, 'o) typeTable option"

record ('r, 'i, 'o) cache_data =
  cd_version :: json_scalar
  cd_tables :: "(sidTree \<times> ('r, 'i, 'o) typeTable) option"

record ('r, 'i, 'o) loader_env =
  noCache :: bool
  cacheStat :: "real option"
  readdirResult :: "('r, 'i, 'o) dir_entry list option"
  cacheContent :: "('r, 'i, 'o) cache_data option"

definition CACHE_VERSION :: int where
  "CACHE_VERSION = 1"

definition isSourceFile :: "('r, 'i, 'o) dir_entry \<Rightarrow> bool" where
  "isSourceFile file = (endsWith (de_name file) ''.yang'' \<or> endsWith (de_name file) ''.sid'')"

fun sourcesNotNewer :: "real \<Rightarrow> ('r, 'i, 'o) dir_entry list \<Rightarrow> bool" where
  "sourcesNotNewer cacheTime [] = True"
| "sourcesNotNewer cacheTime (file # files) =
     (if isSourceFile file then
        (case de_mtime file of
           None \<Rightarrow> False
         | Some mtimeMs \<Rightarrow>
             if mtimeMs > cacheTime then False else sourcesNotNewer cacheTime files)
      else sourcesNotNewer cacheTime files)"

definition isCacheValid :: "('r, 'i, 'o) loader_env \<Rightarrow> bool" where
  "isCacheValid env =
     (case cacheStat env of
        None \<Rightarrow> False
      | Some cacheTime \<Rightarrow>
          (case readdirResult env of
             None \<Rightarrow> False
           | Some files \<Rightarrow> sourcesNotNewer cacheTime files))"

definition deserializeData :: "('r, 'i, 'o) cache_data
    \<Rightarrow> load_error + sidTree \<times> ('r, 'i, 'o) typeTable" where
  "deserializeData data =
     (if cd_version data \<noteq> JNumber CACHE_VERSION then Inl CacheVersionMismatch
      else (case cd_tables data of None \<Rightarrow> Inl CacheUnreadable | Some tables \<Rightarrow> Inr tables))"

definition loadFromCache :: "('r, 'i, 'o) loader_env
    \<Rightarrow> load_error + sidTree \<times> ('r, 'i, 'o) typeTable" where
  "loadFromCache env =
     (case cacheContent env of None \<Rightarrow> Inl CacheUnreadable | Some data \<Rightarrow> deserializeData data)"

text \<open>
  The rebuild path of \<open>loadYangInputs\<close> (steps 1 to 7; step 8 saves the cache and
  swallows a failure, so it does not change the result).
\<close>

definition rebuildSidTree :: "sidTree list \<Rightarrow> sidTree" where
  "rebuildSidTree sidTrees = recalculateParents (fold mergeInto sidTrees emptyTree)"

definition loadSidTrees :: "('r, 'i, 'o) dir_entry list \<Rightarrow> load_error + sidTree list" where
  "loadSidTrees allFiles =
     allOrError (map (\<lambda>f. buildSidTree (de_sid f))
       (filter (\<lambda>f. endsWith (de_name f) ''.sid'') allFiles))"

definition loadTypeTables :: "('r, 'i, 'o) dir_entry list
    \<Rightarrow> load_error + ('r, 'i, 'o) typeTable list" where
  "loadTypeTables allFiles =
     allOrError (map (\<lambda>f. case de_yang f of
                             None \<Rightarrow> Inl YangExtractError
                           | Some table \<Rightarrow> Inr table)
       (filter (\<lambda>f. endsWith (de_name f) ''.yang'') allFiles))"

definition rebuild :: "('r, 'i, 'o) loader_env
    \<Rightarrow> load_error + sidTree \<times> ('r, 'i, 'o) typeTable" where
  "rebuild env =
     (case readdirResult env of
        None \<Rightarrow> Inl ReaddirFailed
      | Some allFiles \<Rightarrow>
          (case loadSidTrees allFiles of
             Inl e \<Rightarrow> Inl e
           | Inr sidTrees \<Rightarrow>
               (case loadTypeTables allFiles of
                  Inl e \<Rightarrow> Inl e
                | Inr typeTables \<Rightarrow>
                    (let typeTable = buildTypeTable typeTables;
                         sidTree = augmentSidTreeWithAliases (rebuildSidTree sidTrees)
                                     (choiceNames typeTable) (caseNames typeTable)
                     in Inr (sidTree, typeTable)))))"

text \<open>
  \<open>loadYangInputs\<close>. The result is tagged with where the tables came from, which the
  caller does not see but the statements about the cache need.
\<close>

datatype load_source = FromCache | Rebuilt

definition loadYangInputs :: "('r, 'i, 'o) loader_env
    \<Rightarrow> load_error + load_source \<times> sidTree \<times> ('r, 'i, 'o) typeTable" where
  "loadYangInputs env =
     (if \<not> noCache env \<and> isCacheValid env then
        (case loadFromCache env of
           Inr tables \<Rightarrow> Inr (FromCache, tables)
         | Inl err \<Rightarrow>
             (case rebuild env of Inl e \<Rightarrow> Inl e | Inr tables \<Rightarrow> Inr (Rebuilt, tables)))
      else (case rebuild env of Inl e \<Rightarrow> Inl e | Inr tables \<Rightarrow> Inr (Rebuilt, tables)))"

text \<open>
  \<open>saveToCache\<close> as the file-system calls it makes, in order: one \<open>writeFile\<close> of the
  serialized JSON and, when verbose, a \<open>stat\<close> for the size it prints.
\<close>

datatype 'c fs_call = WriteFile string 'c | Rename string string | Stat string

definition saveToCache :: "string \<Rightarrow> 'c \<Rightarrow> bool \<Rightarrow> 'c fs_call list" where
  "saveToCache cacheFile json verbose =
     WriteFile cacheFile json # (if verbose then [Stat cacheFile] else [])"

section \<open>The fetch command (fetch.js)\<close>

text \<open>
  \<open>fetchCommand\<close> as the sequence of its outside effects (the warning on the console
  and the calls on the transport) and its outcome (\<open>None\<close> when it returns, the error it
  throws otherwise). What the steps before and after the choice of the query do is given
  by the environment: whether the input file and the YANG cache are found, whether the
  tables load, whether the parsed YAML is in instance-identifier format, the entries
  \<open>extractSidsFromInstanceIdentifier\<close> returns, and how the transport answers. An entry
  is a SID or an array of a list SID and its keys; the command does not look inside it.
  Verbose \<open>console.log\<close> output is left out.
\<close>

datatype 'q fetch_event = ConsoleWarn string | Connect | WaitForReady | SendIFetchRequest 'q
  | PrintResult | Disconnect

record 'q fetch_env =
  fileExists :: bool
  yangCacheFound :: bool
  inputsLoaded :: bool
  isInstanceIdentifierFormat :: bool
  extractedEntries :: "'q list"
  connectOk :: bool
  readyOk :: bool
  responseSuccess :: bool

definition multiplePathsWarning :: string where
  "multiplePathsWarning = ''Warning: Multiple paths not fully supported yet, using first path only''"

definition selectQuery :: "'q list \<Rightarrow> load_error + 'q fetch_event list \<times> 'q" where
  "selectQuery entries =
     (case entries of
        [] \<Rightarrow> Inl NoValidSids
      | [only] \<Rightarrow> Inr ([], only)
      | first # _ \<Rightarrow> Inr ([ConsoleWarn multiplePathsWarning], first))"

definition transportSession :: "'q fetch_env \<Rightarrow> 'q \<Rightarrow> 'q fetch_event list \<times> load_error option" where
  "transportSession env query =
     (if \<not> connectOk env then ([Connect], Some ConnectFailed)
      else if \<not> readyOk env then ([Connect, WaitForReady, Disconnect], Some NotReady)
      else if \<not> responseSuccess env then
        ([Connect, WaitForReady, SendIFetchRequest query, Disconnect], Some IFetchFailed)
      else ([Connect, WaitForReady, SendIFetchRequest query, PrintResult, Disconnect], None))"

definition fetchCommand :: "'q fetch_env \<Rightarrow> 'q fetch_event list \<times> load_error option" where
  "fetchCommand env =
     (if \<not> fileExists env then ([], Some InputFileNotFound)
      else if \<not> yangCacheFound env then ([], Some YangCacheNotFound)
      else if \<not> inputsLoaded env then ([], Some SidFileParsingError)
      else if isInstanceIdentifierFormat env then
        (case selectQuery (extractedEntries env) of
           Inl e \<Rightarrow> ([], Some e)
         | Inr (warnings, query) \<Rightarrow>
             (case transportSession env query of
                (events, outcome) \<Rightarrow> (warnings @ events, outcome)))
      else ([], Some NotInstanceIdentifier))"

section \<open>Vendor typedef merging, as the specification words it\<close>

text \<open>
  \<open>vendorBases name\<close> lists the names \<open>name\<close> gives once a vendor prefix it begins with
  is stripped: the base names the loop looks up for it. A JavaScript \<open>Map\<close> holds each
  key once; \<open>enumKeysDistinct\<close> says so of the two maps of an enum bijection.
\<close>

definition vendorBases :: "string \<Rightarrow> string list" where
  "vendorBases name =
     map (\<lambda>pfx. drop (length pfx) name) (filter (startsWith name) vendorPrefixes)"

definition enumKeysDistinct :: "enumInfo \<Rightarrow> bool" where
  "enumKeysDistinct e = (distinct (map fst (nameToValue e)) \<and> distinct (map fst (valueToName e)))"

text \<open>
  \<open>mergedKnown\<close>: every name in \<open>mergedTypedefs\<close> is a typedef whose \<open>original\<close> is
  that name. \<open>rewrittenType\<close> is what the second loop of step 6 leaves at a path that
  held \<open>info\<close>: the merged typedef with \<open>original\<close> kept, when \<open>info.original\<close> is
  truthy and in \<open>mergedTypedefs\<close>, else \<open>info\<close> itself.
\<close>

definition mergedKnown :: "(string \<times> 'r typeInfo) list \<times> string set \<Rightarrow> bool" where
  "mergedKnown st =
     (\<forall>b \<in> snd st. \<exists>md. map_of (fst st) b = Some md \<and> ti_original md = Some b)"

definition rewrittenType :: "(string \<times> 'r typeInfo) list \<Rightarrow> string set \<Rightarrow> 'r typeInfo
    \<Rightarrow> 'r typeInfo" where
  "rewrittenType tds mergedTypedefs info =
     (case ti_original info of
        None \<Rightarrow> info
      | Some original \<Rightarrow>
          if original \<noteq> [] \<and> original \<in> mergedTypedefs then
            (case map_of tds original of
               None \<Rightarrow> emptyTypeInfo
             | Some mergedTypedef \<Rightarrow> mergedTypedef)\<lparr> ti_original := Some original \<rparr>
          else info)"

section \<open>Concrete inputs\<close>





datatype sid_entry = SidEntry int | ListEntry int "string list"

definition twoPathsEnv :: "sid_entry fetch_env" where
  "twoPathsEnv = \<lparr> fileExists = True, yangCacheFound = True, inputsLoaded = True,
     isInstanceIdentifierFormat = True,
     extractedEntries = [ListEntry 2034 [''1''], SidEntry 2036],
     connectOk = True, readyOk = True, responseSuccess = True \<rparr>"

definition equalMtimeEnv :: "(unit, unit, unit) loader_env" where
  "equalMtimeEnv = \<lparr> noCache = False, cacheStat = Some 5,
     readdirResult = Some [\<lparr> de_name = ''ietf-interfaces.sid'', de_mtime = Some 5,
                              de_sid = Some [], de_yang = None \<rparr>],
     cacheContent = Some \<lparr> cd_version = JNumber 1,
                            cd_tables = Some (emptyTree, emptyTypeTable) \<rparr> \<rparr>"

definition staleVersionEnv :: "(unit, unit, unit) loader_env" where
  "staleVersionEnv = equalMtimeEnv\<lparr> cacheContent :=
     Some \<lparr> cd_version = JNumber 2, cd_tables = Some (emptyTree, emptyTypeTable) \<rparr> \<rparr>"

definition choiceItem :: sid_item where
  "choiceItem = \<lparr> item_sid = 1, item_namespace = ''data'',
     item_identifier = ''/m:a/m:ch/m:b'' \<rparr>"

definition choiceTree :: sidTree where
  "choiceTree = \<lparr> pathToSid = [(''a/ch/b'', 1)], sidToPath = [(1, ''a/ch/b'')],
     prefixedPathToSid = [(''m:a/m:ch/m:b'', 1)], sidToPrefixedPath = [(1, ''m:a/m:ch/m:b'')],
     pathToPrefixed = [(''a/ch/b'', ''m:a/m:ch/m:b'')], identityToSid = [], sidToIdentity = [],
     nodeInfo = [], leafToPaths = [(''b'', [''a/ch/b''])], aliasesAugmented = False \<rparr>"

definition twoLeafItems :: "sid_item list" where
  "twoLeafItems =
     [\<lparr> item_sid = 10, item_namespace = ''data'', item_identifier = ''/m:a/m:x/m:b'' \<rparr>,
      \<lparr> item_sid = 20, item_namespace = ''data'', item_identifier = ''/m:c/m:y/m:b'' \<rparr>]"

definition twoLeafTree :: sidTree where
  "twoLeafTree = \<lparr> pathToSid = [(''a/x/b'', 10), (''c/y/b'', 20)],
     sidToPath = [(10, ''a/x/b''), (20, ''c/y/b'')],
     prefixedPathToSid = [(''m:a/m:x/m:b'', 10), (''m:c/m:y/m:b'', 20)],
     sidToPrefixedPath = [(10, ''m:a/m:x/m:b''), (20, ''m:c/m:y/m:b'')],
     pathToPrefixed = [(''a/x/b'', ''m:a/m:x/m:b''), (''c/y/b'', ''m:c/m:y/m:b'')],
     identityToSid = [], sidToIdentity = [], nodeInfo = [],
     leafToPaths = [(''b'', [''a/x/b'', ''c/y/b''])], aliasesAugmented = False \<rparr>"

definition choiceEnv :: "(unit, unit, unit) loader_env" where
  "choiceEnv = \<lparr> noCache = True, cacheStat = None,
     readdirResult = Some
       [\<lparr> de_name = ''m.sid'', de_mtime = Some 1, de_sid = Some [choiceItem], de_yang = None \<rparr>,
        \<lparr> de_name = ''m.yang'', de_mtime = Some 1, de_sid = None,
          de_yang = Some (emptyTypeTable\<lparr> choiceNames := {''ch''} \<rparr>) \<rparr>],
     cacheContent = None \<rparr>"

definition choiceLoaded :: sidTree where
  "choiceLoaded = \<lparr> pathToSid = [(''a/ch/b'', 1), (''a/b'', 1)], sidToPath = [(1, ''a/ch/b'')],
     prefixedPathToSid = [(''m:a/m:ch/m:b'', 1), (''m:a/m:b'', 1)],
     sidToPrefixedPath = [(1, ''m:a/m:ch/m:b'')],
     pathToPrefixed = [(''a/ch/b'', ''m:a/m:ch/m:b''), (''a/b'', ''m:a/m:b'')],
     identityToSid = [], sidToIdentity = [],
     nodeInfo = [(''a/ch/b'', \<lparr> ni_sid = 1, ni_parent = None, ni_deltaSid = 1, ni_depth = 3,
                                ni_prefixedPath = ''m:a/m:ch/m:b'' \<rparr>)],
     leafToPaths = [(''b'', [''a/ch/b''])], aliasesAugmented = True \<rparr>"

definition parentItems :: "sid_item list" where
  "parentItems =
     [\<lparr> item_sid = 100, item_namespace = ''data'', item_identifier = ''/m:a'' \<rparr>,
      \<lparr> item_sid = 103, item_namespace = ''data'', item_identifier = ''/m:a/m:b'' \<rparr>]"

definition parentTree :: sidTree where
  "parentTree = \<lparr> pathToSid = [(''a'', 100), (''a/b'', 103)],
     sidToPath = [(100, ''a''), (103, ''a/b'')],
     prefixedPathToSid = [(''m:a'', 100), (''m:a/m:b'', 103)],
     sidToPrefixedPath = [(100, ''m:a''), (103, ''m:a/m:b'')],
     pathToPrefixed = [(''a'', ''m:a''), (''a/b'', ''m:a/m:b'')],
     identityToSid = [], sidToIdentity = [],
     nodeInfo = [(''a'', \<lparr> ni_sid = 100, ni_parent = None, ni_deltaSid = 100, ni_depth = 1,
                          ni_prefixedPath = ''m:a'' \<rparr>),
                 (''a/b'', \<lparr> ni_sid = 103, ni_parent = Some 100, ni_deltaSid = 3, ni_depth = 2,
                            ni_prefixedPath = ''m:a/m:b'' \<rparr>)],
     leafToPaths = [(''a'', [''a'']), (''b'', [''a/b''])], aliasesAugmented = False \<rparr>"

text \<open>
  Type tables with vendor typedefs: one vendor typedef for \<open>port-type\<close>, used by a leaf;
  and two vendor typedefs for \<open>foo\<close> that give the name \<open>x\<close> different values.
\<close>

definition enumType :: "(string \<times> int) list \<Rightarrow> string \<Rightarrow> unit typeInfo" where
  "enumType entries original =
     \<lparr> ti_type = Some ''enumeration'',
       ti_enum = Some \<lparr> nameToValue = entries, valueToName = map (\<lambda>(n, v). (v, n)) entries \<rparr>,
       ti_original = Some original, ti_rest = None \<rparr>"

definition vendorTable :: "(unit, unit, unit) typeTable" where
  "vendorTable = \<lparr> types = [(''ports/port/type'', enumType [(''copper'', 0)] ''port-type'')],
     identities = [],
     typedefs = [(''port-type'', enumType [(''copper'', 0)] ''port-type''),
                 (''mchp-port-type'', enumType [(''sfp'', 1)] ''mchp-port-type'')],
     choiceNames = {}, caseNames = {}, nodeOrders = [] \<rparr>"

definition twoVendorTable :: "(unit, unit, unit) typeTable" where
  "twoVendorTable = \<lparr> types = [], identities = [],
     typedefs = [(''foo'', enumType [(''a'', 0)] ''foo''),
                 (''mchp-foo'', enumType [(''x'', 1)] ''mchp-foo''),
                 (''velocitysp-foo'', enumType [(''x'', 2)] ''velocitysp-foo'')],
     choiceNames = {}, caseNames = {}, nodeOrders = [] \<rparr>"

text \<open>
  Items for the resolution cascade: two modules define \<open>c/b\<close>, so the prefixed map, the
  stripped map and the leaf index give three different answers for it. And three leaves
  named \<open>b\<close> and one named \<open>u\<close> for the fuzzy stage.
\<close>

definition cascadeItems :: "sid_item list" where
  "cascadeItems =
     [\<lparr> item_sid = 3, item_namespace = ''data'', item_identifier = ''/m:c/m:d/m:b'' \<rparr>,
      \<lparr> item_sid = 2, item_namespace = ''data'', item_identifier = ''/m:c/m:b'' \<rparr>,
      \<lparr> item_sid = 5, item_namespace = ''data'', item_identifier = ''/n:c/n:b'' \<rparr>]"


definition cascadeTree :: sidTree where
  "cascadeTree = \<lparr> pathToSid = [(''c/d/b'', 3), (''c/b'', 5)],
     sidToPath = [(3, ''c/d/b''), (2, ''c/b''), (5, ''c/b'')],
     prefixedPathToSid = [(''m:c/m:d/m:b'', 3), (''m:c/m:b'', 2), (''n:c/n:b'', 5)],
     sidToPrefixedPath = [(3, ''m:c/m:d/m:b''), (2, ''m:c/m:b''), (5, ''n:c/n:b'')],
     pathToPrefixed = [(''c/d/b'', ''m:c/m:d/m:b''), (''c/b'', ''n:c/n:b'')],
     identityToSid = [], sidToIdentity = [], nodeInfo = [],
     leafToPaths = [(''b'', [''c/d/b'', ''c/b'', ''c/b''])], aliasesAugmented = False \<rparr>"


section \<open>Basic facts about strings and Maps\<close>

lemma map_of_map_set: "map_of (map_set m k v) = (map_of m)(k \<mapsto> v)"
  by (induction m) (auto simp: fun_eq_iff)






lemma split_on_no_sep: "c \<notin> set s \<Longrightarrow> split_on c s = [s]"
  by (induction s) auto







section \<open>The fetch command\<close>

lemma transportSession_sends:
  "transportSession env query = (evs, out) \<Longrightarrow> SendIFetchRequest q \<in> set evs \<Longrightarrow> q = query"
  by (auto simp: transportSession_def split: if_splits)

lemma transportSession_no_warning:
  "transportSession env query = (evs, out) \<Longrightarrow> ConsoleWarn w \<notin> set evs"
  by (auto simp: transportSession_def split: if_splits)

lemma transportSession_sends_fst:
  "SendIFetchRequest q \<in> set (fst (transportSession env query)) \<Longrightarrow> q = query"
  by (auto simp: transportSession_def split: if_splits)

lemma transportSession_no_warning_fst:
  "ConsoleWarn w \<in> set (fst (transportSession env query)) \<Longrightarrow> False"
  by (auto simp: transportSession_def split: if_splits)

text \<open>
  C9. With no extracted entry the command throws before any call on the transport (its
  effects are empty). Once the input file, the YANG cache, the tables and the
  instance-identifier format are there: no entry gives the error "No valid SIDs"; one
  entry makes the transport session run with that entry as the query and without a
  warning; two or more entries give the warning first and then the session with the
  first entry. Every iFETCH request the command sends carries the first entry, a warning
  is printed only when there are several entries, and when the transport connects and is
  ready the first entry is sent.
\<close>

theorem fetch_sends_first_entry_only:
  "(extractedEntries env = [] \<longrightarrow>
      fst (fetchCommand env) = [] \<and> snd (fetchCommand env) \<noteq> None)
   \<and> (fileExists env \<and> yangCacheFound env \<and> inputsLoaded env
        \<and> isInstanceIdentifierFormat env \<longrightarrow>
        (extractedEntries env = [] \<longrightarrow> fetchCommand env = ([], Some NoValidSids))
      \<and> (\<forall>q. extractedEntries env = [q] \<longrightarrow> fetchCommand env = transportSession env q)
      \<and> (\<forall>q r rs. extractedEntries env = q # r # rs \<longrightarrow>
            fetchCommand env = (ConsoleWarn multiplePathsWarning # fst (transportSession env q),
                                snd (transportSession env q)))
      \<and> (connectOk env \<and> readyOk env \<and> extractedEntries env \<noteq> [] \<longrightarrow>
            SendIFetchRequest (hd (extractedEntries env)) \<in> set (fst (fetchCommand env))))
   \<and> (\<forall>q. SendIFetchRequest q \<in> set (fst (fetchCommand env)) \<longrightarrow>
          extractedEntries env \<noteq> [] \<and> q = hd (extractedEntries env))
   \<and> (\<forall>w. ConsoleWarn w \<in> set (fst (fetchCommand env)) \<longrightarrow>
          1 < length (extractedEntries env))"
proof (intro conjI impI allI)
  assume "extractedEntries env = []"
  then show "fst (fetchCommand env) = []" "snd (fetchCommand env) \<noteq> None"
    by (simp_all add: fetchCommand_def selectQuery_def)
next
  assume "fileExists env \<and> yangCacheFound env \<and> inputsLoaded env \<and> isInstanceIdentifierFormat env"
    and "extractedEntries env = []"
  then show "fetchCommand env = ([], Some NoValidSids)"
    by (simp add: fetchCommand_def selectQuery_def)
next
  fix q
  assume "fileExists env \<and> yangCacheFound env \<and> inputsLoaded env \<and> isInstanceIdentifierFormat env"
    and "extractedEntries env = [q]"
  then show "fetchCommand env = transportSession env q"
    by (simp add: fetchCommand_def selectQuery_def split: prod.splits)
next
  fix q r rs
  assume "fileExists env \<and> yangCacheFound env \<and> inputsLoaded env \<and> isInstanceIdentifierFormat env"
    and "extractedEntries env = q # r # rs"
  then show "fetchCommand env = (ConsoleWarn multiplePathsWarning # fst (transportSession env q),
                                snd (transportSession env q))"
    by (simp add: fetchCommand_def selectQuery_def split: prod.splits)
next
  assume "fileExists env \<and> yangCacheFound env \<and> inputsLoaded env \<and> isInstanceIdentifierFormat env"
    and "connectOk env \<and> readyOk env \<and> extractedEntries env \<noteq> []"
  then show "SendIFetchRequest (hd (extractedEntries env)) \<in> set (fst (fetchCommand env))"
    by (cases "extractedEntries env" rule: list.exhaust)
       (auto simp: fetchCommand_def selectQuery_def transportSession_def
             split: prod.splits list.splits)
next
  fix q
  assume s: "SendIFetchRequest q \<in> set (fst (fetchCommand env))"
  then show "extractedEntries env \<noteq> []"
    by (auto simp: fetchCommand_def selectQuery_def split: if_splits)
  from s show "q = hd (extractedEntries env)"
    by (auto simp: fetchCommand_def selectQuery_def split: if_splits list.splits prod.splits
        dest: transportSession_sends transportSession_sends_fst)
next
  fix w
  assume "ConsoleWarn w \<in> set (fst (fetchCommand env))"
  then show "1 < length (extractedEntries env)"
    by (auto simp: fetchCommand_def selectQuery_def split: if_splits list.splits prod.splits
        dest: transportSession_no_warning transportSession_no_warning_fst)
qed

theorem fetch_sends_first_entry_only_witness:
  "fetchCommand twoPathsEnv =
     ([ConsoleWarn multiplePathsWarning, Connect, WaitForReady,
       SendIFetchRequest (ListEntry 2034 [''1'']), PrintResult, Disconnect], None)
   \<and> SendIFetchRequest (SidEntry 2036) \<notin> set (fst (fetchCommand twoPathsEnv))
   \<and> fetchCommand (twoPathsEnv\<lparr> extractedEntries := [] \<rparr>) = ([], Some NoValidSids)
   \<and> fetchCommand (twoPathsEnv\<lparr> extractedEntries := [SidEntry 2036] \<rparr>) =
       ([Connect, WaitForReady, SendIFetchRequest (SidEntry 2036), PrintResult, Disconnect], None)"
proof -
  have a: "fetchCommand twoPathsEnv =
     ([ConsoleWarn multiplePathsWarning, Connect, WaitForReady,
       SendIFetchRequest (ListEntry 2034 [''1'']), PrintResult, Disconnect], None)"
    using fetch_sends_first_entry_only[of twoPathsEnv]
    by (simp add: twoPathsEnv_def transportSession_def)
  have b: "SendIFetchRequest (SidEntry 2036) \<notin> set (fst (fetchCommand twoPathsEnv))"
    using fetch_sends_first_entry_only[of twoPathsEnv]
    by (auto simp: twoPathsEnv_def)
  have c: "fetchCommand (twoPathsEnv\<lparr> extractedEntries := [] \<rparr>) = ([], Some NoValidSids)"
    using fetch_sends_first_entry_only[of "twoPathsEnv\<lparr> extractedEntries := [] \<rparr>"]
    by (simp add: twoPathsEnv_def)
  have d: "fetchCommand (twoPathsEnv\<lparr> extractedEntries := [SidEntry 2036] \<rparr>) =
       ([Connect, WaitForReady, SendIFetchRequest (SidEntry 2036), PrintResult, Disconnect], None)"
    using fetch_sends_first_entry_only[of "twoPathsEnv\<lparr> extractedEntries := [SidEntry 2036] \<rparr>"]
    by (simp add: twoPathsEnv_def transportSession_def)
  from a b c d show ?thesis by simp
qed

section \<open>The cache\<close>

lemma sourcesNotNewer_iff:
  "sourcesNotNewer cacheTime files \<longleftrightarrow>
     (\<forall>f \<in> set files. isSourceFile f \<longrightarrow> (\<exists>m. de_mtime f = Some m \<and> m \<le> cacheTime))"
  by (induction files) (auto simp: isSourceFile_def split: option.splits)

lemma isCacheValid_iff:
  "isCacheValid env \<longleftrightarrow>
     (\<exists>cacheTime files. cacheStat env = Some cacheTime \<and> readdirResult env = Some files
        \<and> (\<forall>f \<in> set files. isSourceFile f \<longrightarrow> (\<exists>m. de_mtime f = Some m \<and> m \<le> cacheTime)))"
  by (auto simp: isCacheValid_def sourcesNotNewer_iff split: option.splits)

lemma loadFromCache_Inr_iff:
  "loadFromCache env = Inr tables \<longleftrightarrow>
     (\<exists>data. cacheContent env = Some data \<and> cd_version data = JNumber 1
        \<and> cd_tables data = Some tables)"
  by (auto simp: loadFromCache_def deserializeData_def CACHE_VERSION_def split: option.splits)

text \<open>
  C5, as the loader has it. The tables come from the cache exactly when the cache is not
  disabled, the cache file and the directory can be read, every \<open>.yang\<close> and \<open>.sid\<close>
  file of the directory has a modification time that is not later than the cache's (an
  equal time keeps the cache valid), and the cache holds version 1 and tables that
  deserialize. When the cache cannot be read, holds another version or does not
  deserialize, the result is the result of the rebuild; an error the loader returns is
  always the rebuild's own.
\<close>

theorem cache_used_only_when_valid:
  "(loadYangInputs env = Inr (FromCache, tables) \<longleftrightarrow>
      \<not> noCache env
      \<and> (\<exists>cacheTime files. cacheStat env = Some cacheTime \<and> readdirResult env = Some files
            \<and> (\<forall>f \<in> set files. isSourceFile f \<longrightarrow>
                  (\<exists>m. de_mtime f = Some m \<and> m \<le> cacheTime)))
      \<and> (\<exists>data. cacheContent env = Some data \<and> cd_version data = JNumber 1
            \<and> cd_tables data = Some tables))
   \<and> ((cacheContent env = None
         \<or> (\<exists>data. cacheContent env = Some data
               \<and> (cd_version data \<noteq> JNumber 1 \<or> cd_tables data = None))) \<longrightarrow>
        loadYangInputs env =
          (case rebuild env of Inl e \<Rightarrow> Inl e | Inr t \<Rightarrow> Inr (Rebuilt, t)))
   \<and> (\<forall>e. loadYangInputs env = Inl e \<longrightarrow> rebuild env = Inl e)"
proof (intro conjI allI impI)
  show "loadYangInputs env = Inr (FromCache, tables) \<longleftrightarrow>
      \<not> noCache env
      \<and> (\<exists>cacheTime files. cacheStat env = Some cacheTime \<and> readdirResult env = Some files
            \<and> (\<forall>f \<in> set files. isSourceFile f \<longrightarrow>
                  (\<exists>m. de_mtime f = Some m \<and> m \<le> cacheTime)))
      \<and> (\<exists>data. cacheContent env = Some data \<and> cd_version data = JNumber 1
            \<and> cd_tables data = Some tables)"
    unfolding isCacheValid_iff[symmetric] loadFromCache_Inr_iff[symmetric]
    by (auto simp: loadYangInputs_def split: sum.splits)
next
  assume "cacheContent env = None
         \<or> (\<exists>data. cacheContent env = Some data
               \<and> (cd_version data \<noteq> JNumber 1 \<or> cd_tables data = None))"
  then have "\<exists>err. loadFromCache env = Inl err"
    by (auto simp: loadFromCache_def deserializeData_def CACHE_VERSION_def split: option.splits)
  then show "loadYangInputs env =
          (case rebuild env of Inl e \<Rightarrow> Inl e | Inr t \<Rightarrow> Inr (Rebuilt, t))"
    by (auto simp: loadYangInputs_def)
next
  fix e
  assume "loadYangInputs env = Inl e"
  then show "rebuild env = Inl e"
    by (auto simp: loadYangInputs_def split: sum.splits if_splits)
qed

theorem cache_used_only_when_valid_witness:
  "loadYangInputs equalMtimeEnv = Inr (FromCache, emptyTree, emptyTypeTable)
   \<and> loadYangInputs staleVersionEnv =
       (case rebuild staleVersionEnv of Inl e \<Rightarrow> Inl e | Inr t \<Rightarrow> Inr (Rebuilt, t))
   \<and> loadYangInputs (equalMtimeEnv\<lparr> cacheStat := Some 4 \<rparr>)
       \<noteq> Inr (FromCache, emptyTree, emptyTypeTable)"
proof -
  have a: "loadYangInputs equalMtimeEnv = Inr (FromCache, emptyTree, emptyTypeTable)"
    using cache_used_only_when_valid[of equalMtimeEnv "(emptyTree, emptyTypeTable)"]
    by (simp add: equalMtimeEnv_def isSourceFile_def)
  have b: "loadYangInputs staleVersionEnv =
       (case rebuild staleVersionEnv of Inl e \<Rightarrow> Inl e | Inr t \<Rightarrow> Inr (Rebuilt, t))"
    using cache_used_only_when_valid[of staleVersionEnv "(emptyTree, emptyTypeTable)"]
    by (simp add: staleVersionEnv_def equalMtimeEnv_def)
  have c: "loadYangInputs (equalMtimeEnv\<lparr> cacheStat := Some 4 \<rparr>)
       \<noteq> Inr (FromCache, emptyTree, emptyTypeTable)"
    using cache_used_only_when_valid[of "equalMtimeEnv\<lparr> cacheStat := Some 4 \<rparr>"
        "(emptyTree, emptyTypeTable)"]
    by (simp add: equalMtimeEnv_def isSourceFile_def endsWith_def)
  from a b c show ?thesis by simp
qed

text \<open>
  The cache is also used when a source file has exactly the cache's modification time:
  the cache's time need not exceed it.
\<close>

theorem cache_strictly_newer_counterexample:
  "loadYangInputs equalMtimeEnv = Inr (FromCache, emptyTree, emptyTypeTable)
   \<and> \<not> (\<forall>f \<in> set (the (readdirResult equalMtimeEnv)).
          isSourceFile f \<longrightarrow> the (de_mtime f) < the (cacheStat equalMtimeEnv))"
  by (simp add: loadYangInputs_def isCacheValid_def equalMtimeEnv_def loadFromCache_def
      deserializeData_def CACHE_VERSION_def isSourceFile_def endsWith_def)

text \<open>
  C6, as \<open>saveToCache\<close> has it. The serialized JSON is written with one \<open>writeFile\<close>
  straight to the cache file path; the only other call is the \<open>stat\<close> of the verbose
  mode. No file is renamed and no other path is written.
\<close>

theorem saveToCache_writes_in_place:
  "saveToCache cacheFile json verbose =
     WriteFile cacheFile json # (if verbose then [Stat cacheFile] else [])
   \<and> (\<forall>src dst. Rename src dst \<notin> set (saveToCache cacheFile json verbose))
   \<and> (\<forall>p c. WriteFile p c \<in> set (saveToCache cacheFile json verbose) \<longrightarrow>
          p = cacheFile \<and> c = json)"
  by (auto simp: saveToCache_def)

theorem saveToCache_writes_in_place_witness:
  "saveToCache ''yang.cache.json'' ''{}'' True =
     [WriteFile ''yang.cache.json'' ''{}'', Stat ''yang.cache.json'']
   \<and> WriteFile ''yang.cache.json.tmp'' ''{}''
        \<notin> set (saveToCache ''yang.cache.json'' ''{}'' True)"
  using saveToCache_writes_in_place[of "''yang.cache.json''" "''{}''" True]
  by auto

text \<open>
  There is no write to a temporary path followed by a rename onto the cache file.
\<close>

theorem saveToCache_atomic_counterexample:
  "\<not> (\<exists>tmp before after. tmp \<noteq> ''yang.cache.json''
        \<and> saveToCache ''yang.cache.json'' ''{}'' False =
            before @ [WriteFile tmp ''{}'', Rename tmp ''yang.cache.json''] @ after)"
proof
  assume "\<exists>tmp before after. tmp \<noteq> ''yang.cache.json''
        \<and> saveToCache ''yang.cache.json'' ''{}'' False =
            before @ [WriteFile tmp ''{}'', Rename tmp ''yang.cache.json''] @ after"
  then obtain tmp before after where
    "saveToCache ''yang.cache.json'' ''{}'' False =
            before @ [WriteFile tmp ''{}'', Rename tmp ''yang.cache.json''] @ after"
    by blast
  then have "length (saveToCache ''yang.cache.json'' ''{}'' False) \<ge> 2"
    by simp
  then show False by (simp add: saveToCache_def)
qed

section \<open>Alias augmentation\<close>

lemma split_on_pieces: "w \<in> set (split_on c s) \<Longrightarrow> c \<notin> set w"
  by (induction s arbitrary: w) (auto split: if_splits list.splits)

lemma split_on_nonempty: "split_on c s \<noteq> []"
  by (induction s) (auto split: list.splits)

lemma afterColon_no_colon: "CHR '':'' \<notin> set (afterColon x)"
proof (cases "CHR '':'' \<in> set x")
  case True
  show ?thesis
  proof (cases "split_on CHR '':'' x")
    case Nil
    with True show ?thesis by (simp add: afterColon_def includes_char_def)
  next
    case (Cons a as)
    show ?thesis
    proof (cases as)
      case Nil
      with Cons True show ?thesis by (simp add: afterColon_def includes_char_def)
    next
      case (Cons b bs)
      with \<open>split_on CHR '':'' x = a # as\<close> have "b \<in> set (split_on CHR '':'' x)" by simp
      then have "CHR '':'' \<notin> set b" by (rule split_on_pieces)
      with Cons \<open>split_on CHR '':'' x = a # as\<close> True show ?thesis
        by (simp add: afterColon_def includes_char_def)
    qed
  qed
next
  case False
  then show ?thesis by (simp add: afterColon_def includes_char_def)
qed

lemma afterColon_idem: "afterColon (afterColon x) = afterColon x"
  using afterColon_no_colon[of x] by (simp add: afterColon_def[of "afterColon x"] includes_char_def)

lemma bareSeg_afterColon: "bareSeg (afterColon x) = afterColon x"
  by (simp add: bareSeg_def afterColon_idem)

lemma bareSeg_idem: "bareSeg (bareSeg x) = bareSeg x"
  by (simp add: bareSeg_def afterColon_idem)

lemma bareSeg_nonempty: "s \<noteq> [] \<Longrightarrow> bareSeg s \<noteq> []"
  by (simp add: bareSeg_def)

lemma bareSeg_plain: "CHR '':'' \<notin> set n \<Longrightarrow> bareSeg n = n"
  by (simp add: bareSeg_def afterColon_def includes_char_def)

lemma bareNames_member: "n \<in> names \<Longrightarrow> n \<noteq> [] \<Longrightarrow> bareSeg n \<in> bareNames names"
  by (simp add: bareNames_def)

lemma nameSet_bare: "x \<in> nameSet names \<Longrightarrow> bareSeg x \<in> bareNames names"
proof -
  assume "x \<in> nameSet names"
  then have "(x \<in> names \<and> x \<noteq> []) \<or> (\<exists>n. n \<in> names \<and> n \<noteq> [] \<and> x = afterColon n \<and> afterColon n \<noteq> [])"
    by (auto simp: nameSet_def)
  then show ?thesis
  proof
    assume "x \<in> names \<and> x \<noteq> []"
    then show ?thesis by (simp add: bareNames_member)
  next
    assume "\<exists>n. n \<in> names \<and> n \<noteq> [] \<and> x = afterColon n \<and> afterColon n \<noteq> []"
    then obtain n where n: "n \<in> names" "n \<noteq> []" "x = afterColon n" "afterColon n \<noteq> []"
      by blast
    then have "bareSeg x = bareSeg n"
      by (simp add: bareSeg_afterColon) (simp add: bareSeg_def)
    with n show ?thesis by (simp add: bareNames_member)
  qed
qed

lemma dropped_by_bare_name:
  "(s \<in> nameSet names \<or> bareSeg s \<in> nameSet names) \<longleftrightarrow> bareSeg s \<in> bareNames names"
proof
  assume "s \<in> nameSet names \<or> bareSeg s \<in> nameSet names"
  then show "bareSeg s \<in> bareNames names"
    using nameSet_bare[of s names] nameSet_bare[of "bareSeg s" names]
    by (auto simp: bareSeg_idem)
next
  assume "bareSeg s \<in> bareNames names"
  then obtain n where n: "n \<in> names" "n \<noteq> []" "bareSeg s = bareSeg n"
    by (auto simp: bareNames_def)
  show "s \<in> nameSet names \<or> bareSeg s \<in> nameSet names"
  proof (cases "afterColon n = []")
    case True
    with n have "bareSeg s = n" by (simp add: bareSeg_def)
    with n show ?thesis by (simp add: nameSet_def)
  next
    case False
    with n have e: "bareSeg s = afterColon n" by (simp add: bareSeg_def)
    from n have "afterColon n \<in> afterColon ` (names - {[]})" by blast
    with False have "afterColon n \<in> nameSet names" by (simp add: nameSet_def)
    with e show ?thesis by simp
  qed
qed

lemma bareNames_plain:
  "\<forall>n \<in> names. CHR '':'' \<notin> set n \<Longrightarrow> bareNames names = names - {[]}"
  by (auto simp: bareNames_def bareSeg_plain image_iff)

lemma fold_keepStep:
  "fold (keepStep (nameSet cn) (nameSet ks)) segs acc =
     acc @ filter (\<lambda>s. bareSeg s \<notin> bareNames cn \<union> bareNames ks) segs"
proof (induction segs arbitrary: acc)
  case Nil
  then show ?case by simp
next
  case (Cons s segs)
  have "keepStep (nameSet cn) (nameSet ks) s acc =
      (if bareSeg s \<in> bareNames cn \<union> bareNames ks then acc else acc @ [s])"
    using dropped_by_bare_name[of s cn] dropped_by_bare_name[of s ks]
    by (auto simp: keepStep_def)
  then show ?case
    by (simp add: Cons.IH)
qed

lemma fold_dedupeStep:
  "acc \<noteq> [] \<Longrightarrow> last acc \<noteq> [] \<Longrightarrow> \<forall>s \<in> set segs. s \<noteq> [] \<Longrightarrow>
     fold dedupeStep segs acc = butlast acc @ collapseBare (last acc # segs)"
proof (induction segs arbitrary: acc)
  case Nil
  then show ?case by simp
next
  case (Cons s segs)
  show ?case
  proof (cases "bareSeg (last acc) = bareSeg s")
    case True
    with Cons.prems have "dedupeStep s acc = acc" by (auto simp: dedupeStep_def)
    with Cons True show ?thesis by simp
  next
    case False
    with Cons.prems have d: "dedupeStep s acc = acc @ [s]" by (auto simp: dedupeStep_def)
    have "fold dedupeStep segs (acc @ [s]) = butlast (acc @ [s]) @ collapseBare (last (acc @ [s]) # segs)"
      using Cons.prems by (intro Cons.IH) auto
    with d False Cons.prems show ?thesis by simp
  qed
qed

lemma fold_dedupeStep_Nil:
  assumes "\<forall>s \<in> set segs. s \<noteq> []"
  shows "fold dedupeStep segs [] = collapseBare segs"
proof (cases segs)
  case Nil
  then show ?thesis by simp
next
  case (Cons s rest)
  have "dedupeStep s [] = [s]" by (simp add: dedupeStep_def)
  moreover have "fold dedupeStep rest [s] = butlast [s] @ collapseBare (last [s] # rest)"
    using assms Cons by (intro fold_dedupeStep) auto
  ultimately show ?thesis using Cons by simp
qed

lemma buildAlias_spec:
  "buildAlias (nameSet cn) (nameSet ks) p = specAlias (bareNames cn \<union> bareNames ks) p"
proof (cases "p = []")
  case True
  then show ?thesis by (simp add: buildAlias_def specAlias_def pathParts_def)
next
  case False
  have "\<forall>s \<in> set (filter (\<lambda>s. bareSeg s \<notin> bareNames cn \<union> bareNames ks) (pathParts p)). s \<noteq> []"
    by (auto simp: pathParts_def)
  then have "fold dedupeStep (filter (\<lambda>s. bareSeg s \<notin> bareNames cn \<union> bareNames ks) (pathParts p)) []
      = collapseBare (filter (\<lambda>s. bareSeg s \<notin> bareNames cn \<union> bareNames ks) (pathParts p))"
    by (rule fold_dedupeStep_Nil)
  with False show ?thesis
    using fold_keepStep[of cn ks "pathParts p" "[]"]
    by (simp add: buildAlias_def specAlias_def Let_def pathParts_def)
qed

lemma specAlias_plain_names:
  assumes "\<forall>n \<in> cn \<union> ks. CHR '':'' \<notin> set n"
  shows "specAlias (bareNames cn \<union> bareNames ks) p = specAlias (cn \<union> ks) p"
proof -
  have b: "bareNames cn \<union> bareNames ks = (cn \<union> ks) - {[]}"
    using assms bareNames_plain[of cn] bareNames_plain[of ks] by auto
  have "filter (\<lambda>s. bareSeg s \<notin> (cn \<union> ks) - {[]}) (pathParts p)
      = filter (\<lambda>s. bareSeg s \<notin> cn \<union> ks) (pathParts p)"
    by (rule filter_cong) (auto simp: pathParts_def dest: bareSeg_nonempty)
  with b show ?thesis by (simp add: specAlias_def)
qed

lemma prefixedKeysKnown_iff:
  "prefixedKeysKnown t \<longleftrightarrow>
     (\<forall>k. map_of (pathToPrefixed t) k \<noteq> None \<longrightarrow> map_of (pathToSid t) k \<noteq> None)"
  by (auto simp: prefixedKeysKnown_def list_all_iff map_has_def map_of_eq_None_iff
      intro: rev_image_eqI)

lemma aliasStep_prefixedPathToSid:
  "map_of (prefixedPathToSid (aliasStep C K (sid, pp) t)) =
     (case buildAlias C K pp of
        None \<Rightarrow> map_of (prefixedPathToSid t)
      | Some a \<Rightarrow> if map_of (prefixedPathToSid t) a = None
                  then (map_of (prefixedPathToSid t))(a \<mapsto> sid)
                  else map_of (prefixedPathToSid t))"
  by (auto simp: aliasStep_def Let_def map_has_def map_of_map_set split: option.splits)

lemma aliasStep_pathToSid:
  "map_of (pathToSid (aliasStep C K (sid, pp) t)) =
     (case buildAlias C K pp of
        None \<Rightarrow> map_of (pathToSid t)
      | Some a \<Rightarrow> if map_of (pathToSid t) (stripPrefixes a) = None
                  then (map_of (pathToSid t))(stripPrefixes a \<mapsto> sid)
                  else map_of (pathToSid t))"
  by (auto simp: aliasStep_def Let_def map_has_def map_of_map_set split: option.splits)

lemma aliasStep_pathToPrefixed:
  "map_of (pathToPrefixed (aliasStep C K (sid, pp) t)) =
     (case buildAlias C K pp of
        None \<Rightarrow> map_of (pathToPrefixed t)
      | Some a \<Rightarrow> if map_of (pathToSid t) (stripPrefixes a) = None
                  then (map_of (pathToPrefixed t))(stripPrefixes a \<mapsto> a)
                  else map_of (pathToPrefixed t))"
  by (auto simp: aliasStep_def Let_def map_has_def map_of_map_set split: option.splits)

lemma aliasStep_frame:
  "sidToPath (aliasStep C K e t) = sidToPath t
   \<and> sidToPrefixedPath (aliasStep C K e t) = sidToPrefixedPath t
   \<and> identityToSid (aliasStep C K e t) = identityToSid t
   \<and> sidToIdentity (aliasStep C K e t) = sidToIdentity t
   \<and> nodeInfo (aliasStep C K e t) = nodeInfo t
   \<and> leafToPaths (aliasStep C K e t) = leafToPaths t
   \<and> aliasesAugmented (aliasStep C K e t) = aliasesAugmented t"
  by (cases e) (simp add: aliasStep_def Let_def split: option.splits)

lemma fold_aliasStep_frame:
  "sidToPath (fold (aliasStep C K) es t) = sidToPath t
   \<and> sidToPrefixedPath (fold (aliasStep C K) es t) = sidToPrefixedPath t
   \<and> identityToSid (fold (aliasStep C K) es t) = identityToSid t
   \<and> sidToIdentity (fold (aliasStep C K) es t) = sidToIdentity t
   \<and> nodeInfo (fold (aliasStep C K) es t) = nodeInfo t
   \<and> leafToPaths (fold (aliasStep C K) es t) = leafToPaths t
   \<and> aliasesAugmented (fold (aliasStep C K) es t) = aliasesAugmented t"
  by (induction es arbitrary: t) (simp_all add: aliasStep_frame)

lemma fold_aliasStep_prefixedPathToSid:
  "map_of (prefixedPathToSid (fold (aliasStep C K) es t)) k =
     (case map_of (prefixedPathToSid t) k of
        Some v \<Rightarrow> Some v
      | None \<Rightarrow> map_option fst (find (\<lambda>e. buildAlias C K (snd e) = Some k) es))"
proof (induction es arbitrary: t)
  case Nil
  then show ?case by (simp split: option.splits)
next
  case (Cons e es)
  obtain sid pp where e: "e = (sid, pp)" by (cases e)
  show ?case
    by (simp add: Cons.IH e aliasStep_prefixedPathToSid split: option.splits)
qed

lemma fold_aliasStep_pathToSid:
  "map_of (pathToSid (fold (aliasStep C K) es t)) k =
     (case map_of (pathToSid t) k of
        Some v \<Rightarrow> Some v
      | None \<Rightarrow> map_option fst
          (find (\<lambda>e. map_option stripPrefixes (buildAlias C K (snd e)) = Some k) es))"
proof (induction es arbitrary: t)
  case Nil
  then show ?case by (simp split: option.splits)
next
  case (Cons e es)
  obtain sid pp where e: "e = (sid, pp)" by (cases e)
  show ?case
    by (auto simp add: Cons.IH e aliasStep_pathToSid split: option.splits)
qed

lemma fold_aliasStep_pathToPrefixed:
  "map_of (pathToPrefixed (fold (aliasStep C K) es t)) k =
     (case map_of (pathToSid t) k of
        Some v \<Rightarrow> map_of (pathToPrefixed t) k
      | None \<Rightarrow>
          (case find (\<lambda>e. map_option stripPrefixes (buildAlias C K (snd e)) = Some k) es of
             None \<Rightarrow> map_of (pathToPrefixed t) k
           | Some e \<Rightarrow> buildAlias C K (snd e)))"
proof (induction es arbitrary: t)
  case Nil
  then show ?case by (simp split: option.splits)
next
  case (Cons e es)
  obtain sid pp where e: "e = (sid, pp)" by (cases e)
  show ?case
    by (auto simp add: Cons.IH e aliasStep_pathToSid aliasStep_pathToPrefixed
        split: option.splits)
qed

lemma afterColon_ma: "afterColon ''m:a'' = ''a''" "afterColon ''m:b'' = ''b''" "afterColon ''m:ch'' = ''ch''"
  by (simp_all add: afterColon_def includes_char_def)

lemma buildItems_choiceItem: "buildItems [choiceItem] = choiceTree"
  by (simp add: buildItems_def processSidItem_def choiceItem_def item_paths_def item_ns_def
      registerIdentity_def indexLeaf_def emptyTree_def choiceTree_def Let_def afterColon_ma)

lemma specAlias_choice: "specAlias {''ch''} ''m:a/m:ch/m:b'' = Some ''m:a/m:b''"
  by (simp add: specAlias_def pathParts_def bareSeg_def afterColon_ma Let_def)

text \<open>
  C10. \<open>augmentSidTreeWithAliases\<close> leaves \<open>sidToPath\<close>, \<open>sidToPrefixedPath\<close>,
  \<open>identityToSid\<close>, \<open>sidToIdentity\<close>, \<open>nodeInfo\<close> and \<open>leafToPaths\<close> as they are, and
  every key of \<open>prefixedPathToSid\<close>, \<open>pathToSid\<close> and \<open>pathToPrefixed\<close> keeps its value.
  The tree is one whose \<open>pathToPrefixed\<close> keys are keys of \<open>pathToSid\<close>, as in every
  tree the builder makes (\<open>rebuildSidTree_invariants\<close>).
\<close>

theorem augment_is_additive:
  assumes "prefixedKeysKnown t"
  shows "sidToPath (augmentSidTreeWithAliases t cn ks) = sidToPath t
   \<and> sidToPrefixedPath (augmentSidTreeWithAliases t cn ks) = sidToPrefixedPath t
   \<and> identityToSid (augmentSidTreeWithAliases t cn ks) = identityToSid t
   \<and> sidToIdentity (augmentSidTreeWithAliases t cn ks) = sidToIdentity t
   \<and> nodeInfo (augmentSidTreeWithAliases t cn ks) = nodeInfo t
   \<and> leafToPaths (augmentSidTreeWithAliases t cn ks) = leafToPaths t
   \<and> (\<forall>k v. map_of (prefixedPathToSid t) k = Some v \<longrightarrow>
          map_of (prefixedPathToSid (augmentSidTreeWithAliases t cn ks)) k = Some v)
   \<and> (\<forall>k v. map_of (pathToSid t) k = Some v \<longrightarrow>
          map_of (pathToSid (augmentSidTreeWithAliases t cn ks)) k = Some v)
   \<and> (\<forall>k v. map_of (pathToPrefixed t) k = Some v \<longrightarrow>
          map_of (pathToPrefixed (augmentSidTreeWithAliases t cn ks)) k = Some v)"
proof (cases "aliasesAugmented t")
  case True
  then show ?thesis by (simp add: augmentSidTreeWithAliases_def)
next
  case False
  let ?f = "fold (aliasStep (nameSet cn) (nameSet ks)) (sidToPrefixedPath t) t"
  have frame: "sidToPath ?f = sidToPath t \<and> sidToPrefixedPath ?f = sidToPrefixedPath t
      \<and> identityToSid ?f = identityToSid t \<and> sidToIdentity ?f = sidToIdentity t
      \<and> nodeInfo ?f = nodeInfo t \<and> leafToPaths ?f = leafToPaths t"
    using fold_aliasStep_frame[of "nameSet cn" "nameSet ks" "sidToPrefixedPath t" t] by simp
  have p: "\<forall>k v. map_of (prefixedPathToSid t) k = Some v \<longrightarrow> map_of (prefixedPathToSid ?f) k = Some v"
    by (simp add: fold_aliasStep_prefixedPathToSid)
  have s: "\<forall>k v. map_of (pathToSid t) k = Some v \<longrightarrow> map_of (pathToSid ?f) k = Some v"
    by (simp add: fold_aliasStep_pathToSid)
  have pp: "\<forall>k v. map_of (pathToPrefixed t) k = Some v \<longrightarrow> map_of (pathToPrefixed ?f) k = Some v"
  proof (intro allI impI)
    fix k v
    assume kv: "map_of (pathToPrefixed t) k = Some v"
    with assms have "map_of (pathToSid t) k \<noteq> None"
      by (simp add: prefixedKeysKnown_iff)
    with kv show "map_of (pathToPrefixed ?f) k = Some v"
      by (auto simp: fold_aliasStep_pathToPrefixed)
  qed
  from False frame p s pp show ?thesis
    by (simp add: augmentSidTreeWithAliases_def)
qed

theorem augment_is_additive_witness:
  "prefixedKeysKnown (buildItems [choiceItem])
   \<and> leafToPaths (augmentSidTreeWithAliases (buildItems [choiceItem]) {''ch''} {})
       = [(''b'', [''a/ch/b''])]
   \<and> map_of (pathToSid (augmentSidTreeWithAliases (buildItems [choiceItem]) {''ch''} {}))
        ''a/ch/b'' = Some 1
   \<and> map_of (pathToPrefixed (augmentSidTreeWithAliases (buildItems [choiceItem]) {''ch''} {}))
        ''a/ch/b'' = Some ''m:a/m:ch/m:b''
   \<and> map_of (prefixedPathToSid (augmentSidTreeWithAliases (buildItems [choiceItem]) {''ch''} {}))
        ''m:a/m:ch/m:b'' = Some 1"
proof -
  have k: "prefixedKeysKnown (buildItems [choiceItem])"
    by (simp add: buildItems_choiceItem choiceTree_def prefixedKeysKnown_def map_has_def)
  show ?thesis
    using k augment_is_additive[OF k, of "{''ch''}" "{}"]
    by (simp add: buildItems_choiceItem) (simp add: choiceTree_def)
qed

text \<open>
  C4. The alias \<open>buildAlias\<close> computes is the alias of the specification, with names
  compared by bare name; when no choice or case name has a colon, that is dropping the
  segments whose bare name is in \<open>choiceNames\<close> or \<open>caseNames\<close>. On a tree not yet
  augmented, the maps after the call are the maps before it, extended at the keys that
  were not mapped: \<open>prefixedPathToSid\<close> maps an unmapped alias to the SID of the first
  entry of \<open>sidToPrefixedPath\<close> with that alias; \<open>pathToSid\<close> maps an unmapped stripped
  alias to the SID of the first entry whose alias strips to it, and \<open>pathToPrefixed\<close>
  maps it to that alias. The call sets the sentinel, and a second call (with any names)
  returns the tree of the first.
\<close>

theorem augment_adds_aliases:
  "(\<forall>p. buildAlias (nameSet cn) (nameSet ks) p = specAlias (bareNames cn \<union> bareNames ks) p)
   \<and> ((\<forall>n \<in> cn \<union> ks. CHR '':'' \<notin> set n) \<longrightarrow>
        (\<forall>p. buildAlias (nameSet cn) (nameSet ks) p = specAlias (cn \<union> ks) p))
   \<and> (\<not> aliasesAugmented t \<longrightarrow>
        (\<forall>k. map_of (prefixedPathToSid (augmentSidTreeWithAliases t cn ks)) k =
           (case map_of (prefixedPathToSid t) k of
              Some v \<Rightarrow> Some v
            | None \<Rightarrow> map_option fst
                (find (\<lambda>e. specAlias (bareNames cn \<union> bareNames ks) (snd e) = Some k)
                   (sidToPrefixedPath t))))
      \<and> (\<forall>k. map_of (pathToSid (augmentSidTreeWithAliases t cn ks)) k =
           (case map_of (pathToSid t) k of
              Some v \<Rightarrow> Some v
            | None \<Rightarrow> map_option fst
                (find (\<lambda>e. map_option stripPrefixes
                              (specAlias (bareNames cn \<union> bareNames ks) (snd e)) = Some k)
                   (sidToPrefixedPath t))))
      \<and> (\<forall>k. map_of (pathToPrefixed (augmentSidTreeWithAliases t cn ks)) k =
           (case map_of (pathToSid t) k of
              Some v \<Rightarrow> map_of (pathToPrefixed t) k
            | None \<Rightarrow>
                (case find (\<lambda>e. map_option stripPrefixes
                                   (specAlias (bareNames cn \<union> bareNames ks) (snd e)) = Some k)
                        (sidToPrefixedPath t) of
                   None \<Rightarrow> map_of (pathToPrefixed t) k
                 | Some e \<Rightarrow> specAlias (bareNames cn \<union> bareNames ks) (snd e))))
      \<and> aliasesAugmented (augmentSidTreeWithAliases t cn ks))
   \<and> augmentSidTreeWithAliases (augmentSidTreeWithAliases t cn ks) cn' ks'
       = augmentSidTreeWithAliases t cn ks"
proof (intro conjI allI impI)
  fix p
  show "buildAlias (nameSet cn) (nameSet ks) p = specAlias (bareNames cn \<union> bareNames ks) p"
    by (rule buildAlias_spec)
next
  fix p
  assume "\<forall>n \<in> cn \<union> ks. CHR '':'' \<notin> set n"
  then show "buildAlias (nameSet cn) (nameSet ks) p = specAlias (cn \<union> ks) p"
    by (simp add: buildAlias_spec specAlias_plain_names)
next
  fix k
  assume "\<not> aliasesAugmented t"
  then show "map_of (prefixedPathToSid (augmentSidTreeWithAliases t cn ks)) k =
           (case map_of (prefixedPathToSid t) k of
              Some v \<Rightarrow> Some v
            | None \<Rightarrow> map_option fst
                (find (\<lambda>e. specAlias (bareNames cn \<union> bareNames ks) (snd e) = Some k)
                   (sidToPrefixedPath t)))"
    by (simp add: augmentSidTreeWithAliases_def fold_aliasStep_prefixedPathToSid buildAlias_spec cong: option.case_cong)
next
  fix k
  assume "\<not> aliasesAugmented t"
  then show "map_of (pathToSid (augmentSidTreeWithAliases t cn ks)) k =
           (case map_of (pathToSid t) k of
              Some v \<Rightarrow> Some v
            | None \<Rightarrow> map_option fst
                (find (\<lambda>e. map_option stripPrefixes
                              (specAlias (bareNames cn \<union> bareNames ks) (snd e)) = Some k)
                   (sidToPrefixedPath t)))"
    by (simp add: augmentSidTreeWithAliases_def fold_aliasStep_pathToSid buildAlias_spec cong: option.case_cong)
next
  fix k
  assume "\<not> aliasesAugmented t"
  then show "map_of (pathToPrefixed (augmentSidTreeWithAliases t cn ks)) k =
           (case map_of (pathToSid t) k of
              Some v \<Rightarrow> map_of (pathToPrefixed t) k
            | None \<Rightarrow>
                (case find (\<lambda>e. map_option stripPrefixes
                                   (specAlias (bareNames cn \<union> bareNames ks) (snd e)) = Some k)
                        (sidToPrefixedPath t) of
                   None \<Rightarrow> map_of (pathToPrefixed t) k
                 | Some e \<Rightarrow> specAlias (bareNames cn \<union> bareNames ks) (snd e)))"
    by (simp add: augmentSidTreeWithAliases_def fold_aliasStep_pathToPrefixed buildAlias_spec cong: option.case_cong)
next
  assume "\<not> aliasesAugmented t"
  then show "aliasesAugmented (augmentSidTreeWithAliases t cn ks)"
    by (simp add: augmentSidTreeWithAliases_def)
next
  show "augmentSidTreeWithAliases (augmentSidTreeWithAliases t cn ks) cn' ks'
       = augmentSidTreeWithAliases t cn ks"
    by (simp add: augmentSidTreeWithAliases_def)
qed

theorem augment_adds_aliases_witness:
  "buildAlias (nameSet {''ch''}) (nameSet {}) ''m:a/m:ch/m:b'' = Some ''m:a/m:b''
   \<and> map_of (prefixedPathToSid (augmentSidTreeWithAliases choiceTree {''ch''} {})) ''m:a/m:b''
       = Some 1
   \<and> map_of (pathToSid (augmentSidTreeWithAliases choiceTree {''ch''} {})) ''a/b'' = Some 1
   \<and> map_of (pathToPrefixed (augmentSidTreeWithAliases choiceTree {''ch''} {})) ''a/b''
       = Some ''m:a/m:b''
   \<and> map_of (pathToSid (augmentSidTreeWithAliases choiceTree {''ch''} {})) ''a/x'' = None
   \<and> augmentSidTreeWithAliases (augmentSidTreeWithAliases choiceTree {''ch''} {}) {} {}
       = augmentSidTreeWithAliases choiceTree {''ch''} {}"
proof -
  have plain: "\<forall>n \<in> {''ch''} \<union> {}. CHR '':'' \<notin> set n" by simp
  have fresh: "\<not> aliasesAugmented choiceTree" by (simp add: choiceTree_def)
  have bn: "bareNames {''ch''} \<union> bareNames {} = {''ch''}"
    by (simp add: bareNames_def bareSeg_def afterColon_def includes_char_def)
  have sp: "stripPrefixes ''m:a/m:b'' = ''a/b''"
    by (simp add: stripPrefixes_def afterColon_ma)
  note th = augment_adds_aliases[of "{''ch''}" "{}" choiceTree "{}" "{}"]
  have a: "buildAlias (nameSet {''ch''}) (nameSet {}) ''m:a/m:ch/m:b'' = Some ''m:a/m:b''"
    using th[THEN conjunct2, THEN conjunct1, THEN mp, OF plain, rule_format, of "''m:a/m:ch/m:b''"]
    by (simp add: specAlias_choice)
  note maps = th[THEN conjunct2, THEN conjunct2, THEN conjunct1, rule_format, OF fresh]
  have b: "map_of (prefixedPathToSid (augmentSidTreeWithAliases choiceTree {''ch''} {})) ''m:a/m:b''
       = Some 1"
    using maps[THEN conjunct1, rule_format, of "''m:a/m:b''"]
    by (simp add: bn choiceTree_def specAlias_choice)
  have c: "map_of (pathToSid (augmentSidTreeWithAliases choiceTree {''ch''} {})) ''a/b'' = Some 1"
    using maps[THEN conjunct2, THEN conjunct1, rule_format, of "''a/b''"]
    by (simp add: bn choiceTree_def specAlias_choice sp)
  have d: "map_of (pathToPrefixed (augmentSidTreeWithAliases choiceTree {''ch''} {})) ''a/b''
       = Some ''m:a/m:b''"
    using maps[THEN conjunct2, THEN conjunct2, THEN conjunct1, rule_format, of "''a/b''"]
    by (simp add: bn choiceTree_def specAlias_choice sp)
  have e: "map_of (pathToSid (augmentSidTreeWithAliases choiceTree {''ch''} {})) ''a/x'' = None"
    using maps[THEN conjunct2, THEN conjunct1, rule_format, of "''a/x''"]
    by (simp add: bn choiceTree_def specAlias_choice sp)
  have f: "augmentSidTreeWithAliases (augmentSidTreeWithAliases choiceTree {''ch''} {}) {} {}
       = augmentSidTreeWithAliases choiceTree {''ch''} {}"
    using th[THEN conjunct2, THEN conjunct2, THEN conjunct2] by simp
  from a b c d e f show ?thesis by simp
qed

section \<open>What the builder guarantees\<close>

lemma map_has_map_set: "map_has (map_set m k v) k' \<longleftrightarrow> k' = k \<or> map_has m k'"
  by (auto simp: map_has_def map_of_map_set)

lemma set_map_set: "e \<in> set (map_set m k v) \<Longrightarrow> e = (k, v) \<or> e \<in> set m"
  by (induction m) (auto split: if_splits)

lemma map_has_keys: "map_has m k \<longleftrightarrow> k \<in> fst ` set m"
  by (simp add: map_has_def map_of_eq_None_iff)

lemma map_has_Cons: "map_has ((a, b) # m) k \<longleftrightarrow> k = a \<or> map_has m k"
  by (auto simp: map_has_def)

lemma map_has_fold_set:
  "map_has (fold (\<lambda>(k, v) m. map_set m k v) src dst) k \<longleftrightarrow> map_has dst k \<or> map_has src k"
proof (induction src arbitrary: dst)
  case Nil
  then show ?case by (simp add: map_has_def)
next
  case (Cons e src)
  obtain a b where e: "e = (a, b)" by (cases e)
  show ?case by (auto simp: Cons.IH e map_has_map_set map_has_Cons)
qed

lemma map_has_set_all: "map_has (set_all dst src) k \<longleftrightarrow> map_has dst k \<or> map_has src k"
  by (simp add: set_all_def map_has_fold_set)

lemma prefixedKeysKnown_has:
  "prefixedKeysKnown t \<longleftrightarrow>
     (\<forall>k. map_has (pathToPrefixed t) k \<longrightarrow> map_has (pathToSid t) k)"
  by (simp add: prefixedKeysKnown_iff map_has_def)

lemma set_uniq_acc:
  "set (fold (\<lambda>x acc. if x \<in> set acc then acc else acc @ [x]) xs acc) = set acc \<union> set xs"
  by (induction xs arbitrary: acc) auto

lemma set_uniq: "set (uniq xs) = set xs"
  by (simp add: uniq_def set_uniq_acc)

lemma leafIndexKnown_iff:
  "leafIndexKnown t \<longleftrightarrow> (\<forall>p \<in> indexedPaths (leafToPaths t). map_has (pathToSid t) p)"
  by (auto simp: leafIndexKnown_def indexedPaths_def list_all_iff)

lemma indexedPaths_map_set:
  "indexedPaths (map_set m k v) \<subseteq> indexedPaths m \<union> set v"
  using set_map_set[of _ m k v] by (fastforce simp: indexedPaths_def)

lemma indexedPaths_lookup: "map_of m k = Some ps \<Longrightarrow> set ps \<subseteq> indexedPaths m"
  by (auto simp: indexedPaths_def dest!: map_of_SomeD)

lemma indexedPaths_mergeLeaf:
  "indexedPaths (mergeLeaf (leaf, paths) m) \<subseteq> indexedPaths m \<union> set paths"
proof -
  define existing where "existing = (case map_of m leaf of None \<Rightarrow> [] | Some ps \<Rightarrow> ps)"
  have ex: "set existing \<subseteq> indexedPaths m"
    unfolding existing_def by (cases "map_of m leaf") (auto dest: indexedPaths_lookup)
  have "mergeLeaf (leaf, paths) m = map_set m leaf (uniq (existing @ paths))"
    by (simp add: mergeLeaf_def existing_def)
  then have "indexedPaths (mergeLeaf (leaf, paths) m) \<subseteq> indexedPaths m \<union> set (uniq (existing @ paths))"
    using indexedPaths_map_set[of m leaf "uniq (existing @ paths)"] by simp
  with ex show ?thesis by (auto simp: set_uniq)
qed

lemma indexedPaths_fold_mergeLeaf:
  "indexedPaths (fold mergeLeaf src dst) \<subseteq> indexedPaths dst \<union> indexedPaths src"
proof (induction src arbitrary: dst)
  case Nil
  then show ?case by simp
next
  case (Cons e src)
  obtain leaf paths where e: "e = (leaf, paths)" by (cases e)
  have "indexedPaths (fold mergeLeaf src (mergeLeaf e dst))
      \<subseteq> indexedPaths (mergeLeaf e dst) \<union> indexedPaths src"
    by (rule Cons.IH)
  also have "\<dots> \<subseteq> indexedPaths dst \<union> set paths \<union> indexedPaths src"
    using indexedPaths_mergeLeaf[of leaf paths dst] e by auto
  also have "\<dots> = indexedPaths dst \<union> indexedPaths (e # src)"
    by (auto simp: indexedPaths_def e)
  finally show ?case by simp
qed

lemma processSidItem_fields:
  assumes "item_paths item = (y, pp)"
  shows "pathToSid (processSidItem item t) = map_set (pathToSid t) y (item_sid item)"
    and "pathToPrefixed (processSidItem item t) =
       (case pp of None \<Rightarrow> pathToPrefixed t
        | Some p \<Rightarrow> if p = [] then pathToPrefixed t else map_set (pathToPrefixed t) y p)"
    and "leafToPaths (processSidItem item t) = leafToPaths (indexLeaf item y t)"
  using assms
  by (auto simp add: processSidItem_def registerIdentity_def indexLeaf_def Let_def
      split: option.splits)

lemma indexLeaf_paths:
  "indexedPaths (leafToPaths (indexLeaf item y t)) \<subseteq> indexedPaths (leafToPaths t) \<union> {y}"
proof -
  define leaf where "leaf = last (split_on CHR ''/'' y)"
  define existing where "existing = (case map_of (leafToPaths t) leaf of None \<Rightarrow> [] | Some ps \<Rightarrow> ps)"
  have ex: "set existing \<subseteq> indexedPaths (leafToPaths t)"
    unfolding existing_def by (cases "map_of (leafToPaths t) leaf") (auto dest: indexedPaths_lookup)
  have "leafToPaths (indexLeaf item y t) = leafToPaths t
      \<or> leafToPaths (indexLeaf item y t) = map_set (leafToPaths t) leaf (existing @ [y])"
    by (simp add: indexLeaf_def Let_def leaf_def existing_def)
  then show ?thesis
    using indexedPaths_map_set[of "leafToPaths t" leaf "existing @ [y]"] ex by auto
qed

lemma processSidItem_invariants:
  assumes "prefixedKeysKnown t" and "leafIndexKnown t"
  shows "prefixedKeysKnown (processSidItem item t) \<and> leafIndexKnown (processSidItem item t)"
proof
  obtain y pp where ip: "item_paths item = (y, pp)" by (cases "item_paths item")
  note f = processSidItem_fields[OF ip, of t]
  show "prefixedKeysKnown (processSidItem item t)"
    using assms(1) unfolding prefixedKeysKnown_has f
    by (auto simp: map_has_map_set split: option.splits)
  show "leafIndexKnown (processSidItem item t)"
    using assms(2) indexLeaf_paths[of item y t] unfolding leafIndexKnown_iff f
    by (auto simp: map_has_map_set)
qed

lemma emptyTree_invariants: "prefixedKeysKnown emptyTree \<and> leafIndexKnown emptyTree"
  by (simp add: emptyTree_def prefixedKeysKnown_def leafIndexKnown_def)

lemma fold_processSidItem_invariants:
  "prefixedKeysKnown t \<and> leafIndexKnown t \<Longrightarrow>
     prefixedKeysKnown (fold processSidItem items t) \<and> leafIndexKnown (fold processSidItem items t)"
  by (induction items arbitrary: t) (simp_all add: processSidItem_invariants)

lemma buildItems_invariants:
  "prefixedKeysKnown (buildItems items) \<and> leafIndexKnown (buildItems items)"
  unfolding buildItems_def by (rule fold_processSidItem_invariants) (rule emptyTree_invariants)

lemma mergeInto_invariants:
  assumes "prefixedKeysKnown merged \<and> leafIndexKnown merged"
    and "prefixedKeysKnown tree \<and> leafIndexKnown tree"
  shows "prefixedKeysKnown (mergeInto tree merged) \<and> leafIndexKnown (mergeInto tree merged)"
proof
  have s: "pathToSid (mergeInto tree merged) = set_all (pathToSid merged) (pathToSid tree)"
    and p: "pathToPrefixed (mergeInto tree merged) = set_all (pathToPrefixed merged) (pathToPrefixed tree)"
    and l: "leafToPaths (mergeInto tree merged) = fold mergeLeaf (leafToPaths tree) (leafToPaths merged)"
    by (simp_all add: mergeInto_def)
  from assms show "prefixedKeysKnown (mergeInto tree merged)"
    unfolding prefixedKeysKnown_has s p
    by (auto simp: map_has_set_all)
  from assms show "leafIndexKnown (mergeInto tree merged)"
    unfolding leafIndexKnown_iff s l
    using indexedPaths_fold_mergeLeaf[of "leafToPaths tree" "leafToPaths merged"]
    by (auto simp: map_has_set_all)
qed

lemma fold_mergeInto_invariants:
  assumes "\<forall>tree \<in> set trees. prefixedKeysKnown tree \<and> leafIndexKnown tree"
    and "prefixedKeysKnown merged \<and> leafIndexKnown merged"
  shows "prefixedKeysKnown (fold mergeInto trees merged) \<and> leafIndexKnown (fold mergeInto trees merged)"
  using assms
proof (induction trees arbitrary: merged)
  case Nil
  then show ?case by simp
next
  case (Cons tree trees)
  then show ?case by (simp add: mergeInto_invariants)
qed

lemma recalcStep_frame:
  "pathToSid (recalcStep e t) = pathToSid t
   \<and> sidToPath (recalcStep e t) = sidToPath t
   \<and> prefixedPathToSid (recalcStep e t) = prefixedPathToSid t
   \<and> sidToPrefixedPath (recalcStep e t) = sidToPrefixedPath t
   \<and> pathToPrefixed (recalcStep e t) = pathToPrefixed t
   \<and> identityToSid (recalcStep e t) = identityToSid t
   \<and> sidToIdentity (recalcStep e t) = sidToIdentity t
   \<and> leafToPaths (recalcStep e t) = leafToPaths t
   \<and> aliasesAugmented (recalcStep e t) = aliasesAugmented t"
  by (cases e) (simp add: recalcStep_def)

lemma fold_recalcStep_frame:
  "pathToSid (fold recalcStep es t) = pathToSid t
   \<and> sidToPath (fold recalcStep es t) = sidToPath t
   \<and> prefixedPathToSid (fold recalcStep es t) = prefixedPathToSid t
   \<and> sidToPrefixedPath (fold recalcStep es t) = sidToPrefixedPath t
   \<and> pathToPrefixed (fold recalcStep es t) = pathToPrefixed t
   \<and> identityToSid (fold recalcStep es t) = identityToSid t
   \<and> sidToIdentity (fold recalcStep es t) = sidToIdentity t
   \<and> leafToPaths (fold recalcStep es t) = leafToPaths t
   \<and> aliasesAugmented (fold recalcStep es t) = aliasesAugmented t"
proof (induction es arbitrary: t)
  case Nil
  then show ?case by simp
next
  case (Cons e es)
  show ?case by (simp add: Cons.IH recalcStep_frame)
qed

lemma recalculateParents_invariants:
  "prefixedKeysKnown t \<and> leafIndexKnown t \<Longrightarrow>
     prefixedKeysKnown (recalculateParents t) \<and> leafIndexKnown (recalculateParents t)"
  by (simp add: recalculateParents_def prefixedKeysKnown_def leafIndexKnown_def
      fold_recalcStep_frame)

lemma allOrError_Inr:
  "allOrError rs = Inr xs \<Longrightarrow> rs = map Inr xs"
proof (induction rs arbitrary: xs)
  case Nil
  then show ?case by simp
next
  case (Cons r rs)
  then show ?case by (cases r) (auto split: sum.splits)
qed

lemma built_trees:
  assumes "allOrError (map buildSidTree files) = Inr trees"
  shows "\<forall>tree \<in> set trees. \<exists>items. tree = buildItems items"
proof
  fix tree
  assume "tree \<in> set trees"
  moreover have "map buildSidTree files = map Inr trees"
    using assms by (rule allOrError_Inr)
  ultimately have "Inr tree \<in> set (map buildSidTree files)"
    by simp
  then show "\<exists>items. tree = buildItems items"
    by (auto simp: buildSidTree_def split: option.splits)
qed

lemma rebuildSidTree_invariants:
  assumes "\<forall>tree \<in> set trees. \<exists>items. tree = buildItems items"
  shows "prefixedKeysKnown (rebuildSidTree trees) \<and> leafIndexKnown (rebuildSidTree trees)"
proof -
  from assms have "\<forall>tree \<in> set trees. prefixedKeysKnown tree \<and> leafIndexKnown tree"
    using buildItems_invariants by auto
  then have "prefixedKeysKnown (fold mergeInto trees emptyTree)
      \<and> leafIndexKnown (fold mergeInto trees emptyTree)"
    using emptyTree_invariants by (rule fold_mergeInto_invariants)
  then show ?thesis
    unfolding rebuildSidTree_def by (rule recalculateParents_invariants)
qed

lemma augment_leafIndexKnown:
  assumes "leafIndexKnown t"
  shows "leafIndexKnown (augmentSidTreeWithAliases t cn ks)"
proof (cases "aliasesAugmented t")
  case True
  with assms show ?thesis by (simp add: augmentSidTreeWithAliases_def)
next
  case False
  let ?f = "fold (aliasStep (nameSet cn) (nameSet ks)) (sidToPrefixedPath t) t"
  have l: "leafToPaths ?f = leafToPaths t"
    using fold_aliasStep_frame[of "nameSet cn" "nameSet ks" "sidToPrefixedPath t" t] by simp
  have "map_has (pathToSid t) p \<Longrightarrow> map_has (pathToSid ?f) p" for p
    by (auto simp: map_has_def fold_aliasStep_pathToSid)
  with assms False l show ?thesis
    by (simp add: augmentSidTreeWithAliases_def leafIndexKnown_iff)
qed

lemma rebuild_leafIndexKnown:
  assumes "rebuild env = Inr (t, tt)"
  shows "leafIndexKnown t"
proof -
  from assms obtain allFiles where r: "readdirResult env = Some allFiles"
    by (cases "readdirResult env") (auto simp: rebuild_def)
  from assms r obtain sidTrees where b: "loadSidTrees allFiles = Inr sidTrees"
    by (cases "loadSidTrees allFiles") (auto simp: rebuild_def)
  from assms r b have "\<exists>cn ks. t = augmentSidTreeWithAliases (rebuildSidTree sidTrees) cn ks"
    by (auto simp: rebuild_def Let_def split: sum.splits)
  then obtain cn ks where t: "t = augmentSidTreeWithAliases (rebuildSidTree sidTrees) cn ks"
    by blast
  from b have "allOrError (map buildSidTree (map de_sid
          (filter (\<lambda>f. endsWith (de_name f) ''.sid'') allFiles))) = Inr sidTrees"
    by (simp add: loadSidTrees_def comp_def)
  then have "\<forall>tree \<in> set sidTrees. \<exists>items. tree = buildItems items"
    by (rule built_trees)
  then have "leafIndexKnown (rebuildSidTree sidTrees)"
    using rebuildSidTree_invariants by blast
  with t show ?thesis by (simp add: augment_leafIndexKnown)
qed

section \<open>Path resolution\<close>


lemma fold_pickStep:
  "fold (pickStep cs) cands (b, h) = (b', h') \<Longrightarrow>
     ((b', h') = (b, h) \<and> (\<forall>c \<in> set cands. int (candidateScore cs c) \<le> h))
     \<or> (\<exists>k < length cands. b' = Some (cands ! k) \<and> h' = int (candidateScore cs (cands ! k))
           \<and> h < h'
           \<and> (\<forall>j < length cands. candidateScore cs (cands ! j) \<le> candidateScore cs (cands ! k))
           \<and> (\<forall>j < k. candidateScore cs (cands ! j) < candidateScore cs (cands ! k)))"
proof (induction cands arbitrary: b h)
  case Nil
  then show ?case by simp
next
  case (Cons c rest)
  show ?case
  proof (cases "int (candidateScore cs c) > h")
    case True
    then have step: "pickStep cs c (b, h) = (Some c, int (candidateScore cs c))"
      by (simp add: pickStep_def)
    with Cons.prems have f: "fold (pickStep cs) rest (Some c, int (candidateScore cs c)) = (b', h')"
      by simp
    from Cons.IH[OF f] show ?thesis
    proof
      assume a: "(b', h') = (Some c, int (candidateScore cs c))
          \<and> (\<forall>x \<in> set rest. int (candidateScore cs x) \<le> int (candidateScore cs c))"
      have "\<forall>j < length (c # rest). candidateScore cs ((c # rest) ! j) \<le> candidateScore cs c"
      proof (intro allI impI)
        fix j assume "j < length (c # rest)"
        then show "candidateScore cs ((c # rest) ! j) \<le> candidateScore cs c"
          using a by (cases j) auto
      qed
      with a True show ?thesis
        by (intro disjI2 exI[of _ 0]) simp
    next
      assume "\<exists>k < length rest. b' = Some (rest ! k) \<and> h' = int (candidateScore cs (rest ! k))
           \<and> int (candidateScore cs c) < h'
           \<and> (\<forall>j < length rest. candidateScore cs (rest ! j) \<le> candidateScore cs (rest ! k))
           \<and> (\<forall>j < k. candidateScore cs (rest ! j) < candidateScore cs (rest ! k))"
      then obtain k where k: "k < length rest" "b' = Some (rest ! k)"
        "h' = int (candidateScore cs (rest ! k))" "int (candidateScore cs c) < h'"
        "\<forall>j < length rest. candidateScore cs (rest ! j) \<le> candidateScore cs (rest ! k)"
        "\<forall>j < k. candidateScore cs (rest ! j) < candidateScore cs (rest ! k)"
        by blast
      have le: "\<forall>j < length (c # rest). candidateScore cs ((c # rest) ! j)
          \<le> candidateScore cs ((c # rest) ! Suc k)"
      proof (intro allI impI)
        fix j assume "j < length (c # rest)"
        then show "candidateScore cs ((c # rest) ! j) \<le> candidateScore cs ((c # rest) ! Suc k)"
          using k by (cases j) auto
      qed
      have lt: "\<forall>j < Suc k. candidateScore cs ((c # rest) ! j)
          < candidateScore cs ((c # rest) ! Suc k)"
      proof (intro allI impI)
        fix j assume "j < Suc k"
        then show "candidateScore cs ((c # rest) ! j) < candidateScore cs ((c # rest) ! Suc k)"
          using k by (cases j) auto
      qed
      from k True le lt show ?thesis
        by (intro disjI2 exI[of _ "Suc k"]) simp
    qed
  next
    case False
    then have step: "pickStep cs c (b, h) = (b, h)"
      by (simp add: pickStep_def)
    with Cons.prems have f: "fold (pickStep cs) rest (b, h) = (b', h')"
      by simp
    from Cons.IH[OF f] show ?thesis
    proof
      assume "(b', h') = (b, h) \<and> (\<forall>x \<in> set rest. int (candidateScore cs x) \<le> h)"
      with False show ?thesis by auto
    next
      assume "\<exists>k < length rest. b' = Some (rest ! k) \<and> h' = int (candidateScore cs (rest ! k))
           \<and> h < h'
           \<and> (\<forall>j < length rest. candidateScore cs (rest ! j) \<le> candidateScore cs (rest ! k))
           \<and> (\<forall>j < k. candidateScore cs (rest ! j) < candidateScore cs (rest ! k))"
      then obtain k where k: "k < length rest" "b' = Some (rest ! k)"
        "h' = int (candidateScore cs (rest ! k))" "h < h'"
        "\<forall>j < length rest. candidateScore cs (rest ! j) \<le> candidateScore cs (rest ! k)"
        "\<forall>j < k. candidateScore cs (rest ! j) < candidateScore cs (rest ! k)"
        by blast
      have le: "\<forall>j < length (c # rest). candidateScore cs ((c # rest) ! j)
          \<le> candidateScore cs ((c # rest) ! Suc k)"
      proof (intro allI impI)
        fix j assume "j < length (c # rest)"
        then show "candidateScore cs ((c # rest) ! j) \<le> candidateScore cs ((c # rest) ! Suc k)"
          using k False by (cases j) auto
      qed
      have lt: "\<forall>j < Suc k. candidateScore cs ((c # rest) ! j)
          < candidateScore cs ((c # rest) ! Suc k)"
      proof (intro allI impI)
        fix j assume "j < Suc k"
        then show "candidateScore cs ((c # rest) ! j) < candidateScore cs ((c # rest) ! Suc k)"
          using k False by (cases j) auto
      qed
      from k le lt show ?thesis
        by (intro disjI2 exI[of _ "Suc k"]) simp
    qed
  qed
qed

lemma pickBest_first_maximal:
  assumes "cands \<noteq> []"
  shows "\<exists>k < length cands. pickBest cs cands = Some (cands ! k)
     \<and> (\<forall>j < length cands. candidateScore cs (cands ! j) \<le> candidateScore cs (cands ! k))
     \<and> (\<forall>j < k. candidateScore cs (cands ! j) < candidateScore cs (cands ! k))"
proof -
  obtain b' h' where f: "fold (pickStep cs) cands (None, -1) = (b', h')"
    by (cases "fold (pickStep cs) cands (None, -1)")
  from assms obtain c where "c \<in> set cands" by (cases cands) auto
  then have "\<not> (\<forall>c \<in> set cands. int (candidateScore cs c) \<le> -1)" by force
  with fold_pickStep[OF f] f show ?thesis
    by (auto simp: pickBest_def)
qed

lemma split_on_chars: "w \<in> set (split_on c s) \<Longrightarrow> set w \<subseteq> set s"
proof (induction s arbitrary: w)
  case Nil
  then show ?case by simp
next
  case (Cons x xs)
  show ?case
  proof (cases "x = c")
    case True
    with Cons show ?thesis by auto
  next
    case False
    obtain p ps where sp: "split_on c xs = p # ps"
      using split_on_nonempty[of c xs] by (cases "split_on c xs") auto
    with False Cons.prems have "w = x # p \<or> w \<in> set ps" by simp
    then show ?thesis
      using Cons.IH[of p] Cons.IH[of w] sp by auto
  qed
qed

lemma afterColon_chars: "set (afterColon x) \<subseteq> set x"
proof (cases "CHR '':'' \<in> set x")
  case False
  then show ?thesis by (simp add: afterColon_def includes_char_def)
next
  case True
  show ?thesis
  proof (cases "split_on CHR '':'' x")
    case Nil
    with True show ?thesis by (simp add: afterColon_def includes_char_def)
  next
    case (Cons a as)
    show ?thesis
    proof (cases as)
      case Nil
      with Cons True show ?thesis by (simp add: afterColon_def includes_char_def)
    next
      case (Cons b bs)
      with \<open>split_on CHR '':'' x = a # as\<close> have "b \<in> set (split_on CHR '':'' x)" by simp
      then have "set b \<subseteq> set x" by (rule split_on_chars)
      with Cons \<open>split_on CHR '':'' x = a # as\<close> True show ?thesis
        by (simp add: afterColon_def includes_char_def)
    qed
  qed
qed

lemma split_on_append:
  "split_on c (a @ c # b) = split_on c a @ split_on c b"
proof (induction a)
  case Nil
  then show ?case by simp
next
  case (Cons x xs)
  obtain p ps where "split_on c xs = p # ps"
    using split_on_nonempty[of c xs] by (cases "split_on c xs") auto
  with Cons show ?case by simp
qed

lemma split_on_join_Cons:
  "\<forall>x \<in> set (x0 # xs). c \<notin> set x \<Longrightarrow> split_on c (join_with [c] (x0 # xs)) = x0 # xs"
proof (induction xs arbitrary: x0)
  case Nil
  then show ?case by (simp add: split_on_no_sep)
next
  case (Cons y ys)
  then have "split_on c (join_with [c] (y # ys)) = y # ys" by simp
  with Cons.prems show ?case by (simp add: split_on_append split_on_no_sep)
qed

lemma split_on_join:
  "xs \<noteq> [] \<Longrightarrow> \<forall>x \<in> set xs. c \<notin> set x \<Longrightarrow> split_on c (join_with [c] xs) = xs"
  by (cases xs) (simp_all only: split_on_join_Cons)

lemma stripPrefixes_segment:
  assumes "CHR ''/'' \<notin> set path"
  shows "stripPrefixes path = last (split_on CHR ''/'' (stripPrefixes (fullPathOf path ctx)))"
proof -
  have own: "stripPrefixes path = afterColon path"
    using assms by (simp add: stripPrefixes_def split_on_no_sep afterColon_def includes_char_def)
  have pieces: "split_on CHR ''/'' (join_with ''/'' (map afterColon (split_on CHR ''/'' s))) =
      map afterColon (split_on CHR ''/'' s)" for s
  proof (rule split_on_join)
    show "map afterColon (split_on CHR ''/'' s) \<noteq> []" by (simp add: split_on_nonempty)
    show "\<forall>x \<in> set (map afterColon (split_on CHR ''/'' s)). CHR ''/'' \<notin> set x"
      using split_on_pieces[of _ "CHR ''/''" s] afterColon_chars by fastforce
  qed
  show ?thesis
  proof (cases "ctx = []")
    case True
    show ?thesis
    proof (cases "path = []")
      case True
      with \<open>ctx = []\<close> show ?thesis by (simp add: fullPathOf_def stripPrefixes_def)
    next
      case False
      have "CHR ''/'' \<notin> set (afterColon path)"
        using assms afterColon_chars[of path] by auto
      with True assms own show ?thesis
        by (simp add: fullPathOf_def split_on_no_sep)
    qed
  next
    case False
    then have full: "fullPathOf path ctx = ctx @ CHR ''/'' # path"
      by (simp add: fullPathOf_def)
    have "split_on CHR ''/'' (ctx @ CHR ''/'' # path) = split_on CHR ''/'' ctx @ [path]"
      using assms by (simp add: split_on_append split_on_no_sep)
    then have "last (split_on CHR ''/'' (stripPrefixes (ctx @ CHR ''/'' # path))) = afterColon path"
      using pieces[of "ctx @ CHR ''/'' # path"] by (simp add: stripPrefixes_def)
    with own full show ?thesis by simp
  qed
qed

lemma contextSegments_nonempty: "s \<in> set (contextSegmentsOf ctx) \<Longrightarrow> s \<noteq> []"
  by (auto simp: contextSegmentsOf_def)


lemma candidateScore_empty_candidate: "candidateScore (contextSegmentsOf ctx) [] = 0"
  using contextSegments_nonempty[of _ ctx]
  by (cases "contextSegmentsOf ctx") (auto simp: candidateScore_def)


lemma fuzzyResolve_first_maximal:
  assumes "map_of (leafToPaths t) (stripPrefixes path) = Some cands" and "cands \<noteq> []"
  shows "\<exists>k < length cands. fuzzyResolve path t ctx = map_of (pathToSid t) (cands ! k)
     \<and> (\<forall>j < length cands. candidateScore (contextSegmentsOf ctx) (cands ! j)
            \<le> candidateScore (contextSegmentsOf ctx) (cands ! k))
     \<and> (\<forall>j < k. candidateScore (contextSegmentsOf ctx) (cands ! j)
            < candidateScore (contextSegmentsOf ctx) (cands ! k))"
proof -
  from assms(2) obtain first rest where c: "cands = first # rest" by (cases cands) auto
  show ?thesis
  proof (cases rest)
    case Nil
    with c assms(1) have "fuzzyResolve path t ctx = map_of (pathToSid t) (cands ! 0)"
      by (simp add: fuzzyResolve_def)
    with c Nil show ?thesis by (intro exI[of _ 0]) simp
  next
    case (Cons second more)
    from pickBest_first_maximal[OF assms(2), of "contextSegmentsOf ctx"] obtain k where
      k: "k < length cands" "pickBest (contextSegmentsOf ctx) cands = Some (cands ! k)"
         "\<forall>j < length cands. candidateScore (contextSegmentsOf ctx) (cands ! j)
            \<le> candidateScore (contextSegmentsOf ctx) (cands ! k)"
         "\<forall>j < k. candidateScore (contextSegmentsOf ctx) (cands ! j)
            < candidateScore (contextSegmentsOf ctx) (cands ! k)"
      by blast
    have res: "fuzzyResolve path t ctx =
        (if cands ! k \<noteq> [] then map_of (pathToSid t) (cands ! k) else map_of (pathToSid t) first)"
      using assms(1) c Cons k(2) by (simp add: fuzzyResolve_def)
    have "fuzzyResolve path t ctx = map_of (pathToSid t) (cands ! k)"
    proof (cases "cands ! k = []")
      case False
      with res show ?thesis by simp
    next
      case True
      then have "candidateScore (contextSegmentsOf ctx) (cands ! k) = 0"
        by (simp add: candidateScore_empty_candidate)
      with k(4) have "k = 0" by (cases k) auto
      with res c show ?thesis by simp
    qed
    with k show ?thesis by blast
  qed
qed

lemma nth_known:
  assumes "leafIndexKnown t" and "map_of (leafToPaths t) leaf = Some cands" and "k < length cands"
  shows "map_of (pathToSid t) (cands ! k) \<noteq> None"
proof -
  from assms(2,3) have "cands ! k \<in> indexedPaths (leafToPaths t)"
    using indexedPaths_lookup[of "leafToPaths t" leaf cands] by auto
  with assms(1) show ?thesis by (simp add: leafIndexKnown_iff map_has_def)
qed

lemma afterColon_samples:
  "afterColon ''m:a'' = ''a''" "afterColon ''m:b'' = ''b''" "afterColon ''m:c'' = ''c''"
  "afterColon ''m:x'' = ''x''" "afterColon ''m:y'' = ''y''" "afterColon ''m:ch'' = ''ch''"
  "afterColon ''a'' = ''a''" "afterColon ''b'' = ''b''" "afterColon ''c'' = ''c''"
  "afterColon ''x'' = ''x''" "afterColon ''zzz'' = ''zzz''"
  by (simp_all add: afterColon_def includes_char_def)

lemma buildItems_twoLeafItems: "buildItems twoLeafItems = twoLeafTree"
  by (simp add: buildItems_def processSidItem_def twoLeafItems_def item_paths_def item_ns_def
      registerIdentity_def indexLeaf_def emptyTree_def twoLeafTree_def Let_def afterColon_samples)

lemma twoLeafTree_known: "leafIndexKnown (buildItems twoLeafItems)"
  by (simp add: buildItems_twoLeafItems twoLeafTree_def leafIndexKnown_def map_has_def)

lemma stripPrefixes_pieces:
  "split_on CHR ''/'' (stripPrefixes s) = map afterColon (split_on CHR ''/'' s)"
proof (cases "s = []")
  case True
  then show ?thesis by (simp add: stripPrefixes_def afterColon_def includes_char_def)
next
  case False
  have "split_on CHR ''/'' (join_with ''/'' (map afterColon (split_on CHR ''/'' s))) =
      map afterColon (split_on CHR ''/'' s)"
  proof (rule split_on_join)
    show "map afterColon (split_on CHR ''/'' s) \<noteq> []" by (simp add: split_on_nonempty)
    show "\<forall>x \<in> set (map afterColon (split_on CHR ''/'' s)). CHR ''/'' \<notin> set x"
      using split_on_pieces[of _ "CHR ''/''" s] afterColon_chars by fastforce
  qed
  with False show ?thesis by (simp add: stripPrefixes_def)
qed

text \<open>
  C2, as the resolver has it. The full path is \<open>contextPath/path\<close>, or \<open>path\<close> alone
  when the context is empty. \<open>resolvePathToSid\<close> returns the direct hit of the full path
  in \<open>prefixedPathToSid\<close> when there is one; otherwise the direct hit of the stripped
  full path in \<open>pathToSid\<close> when there is one; otherwise the fuzzy stage looks the
  stripped \<open>path\<close> up in the leaf index and, when the candidate list is not empty,
  returns the SID of one of the candidates. It returns no SID exactly when the two direct
  lookups miss and the leaf index has no candidate for the stripped \<open>path\<close>. The
  stripped \<open>path\<close> is \<open>path\<close> with the module prefix of every segment removed: the whole
  of it is the key, and it is the last segment of the stripped full path when \<open>path\<close> is
  one segment. The tree is one whose leaf index holds only keys of \<open>pathToSid\<close>, as every
  tree the loader builds does (\<open>rebuild_leafIndexKnown\<close>).
\<close>

theorem resolvePathToSid_cascade:
  fixes path ctx :: string and t :: sidTree
  defines "full \<equiv> (if ctx = [] then path else ctx @ ''/'' @ path)"
  assumes known: "leafIndexKnown t"
  shows "(map_has (prefixedPathToSid t) full \<longrightarrow>
            resolvePathToSid path t ctx = map_of (prefixedPathToSid t) full)
       \<and> (\<not> map_has (prefixedPathToSid t) full
            \<and> map_has (pathToSid t) (stripPrefixes full) \<longrightarrow>
            resolvePathToSid path t ctx = map_of (pathToSid t) (stripPrefixes full))
       \<and> (\<not> map_has (prefixedPathToSid t) full
            \<and> \<not> map_has (pathToSid t) (stripPrefixes full) \<longrightarrow>
            (case map_of (leafToPaths t) (stripPrefixes path) of
               None \<Rightarrow> resolvePathToSid path t ctx = None
             | Some candidatePaths \<Rightarrow>
                 if candidatePaths = [] then resolvePathToSid path t ctx = None
                 else \<exists>c \<in> set candidatePaths.
                        resolvePathToSid path t ctx = map_of (pathToSid t) c
                        \<and> map_of (pathToSid t) c \<noteq> None))
       \<and> (resolvePathToSid path t ctx = None \<longleftrightarrow>
            \<not> map_has (prefixedPathToSid t) full
            \<and> \<not> map_has (pathToSid t) (stripPrefixes full)
            \<and> (case map_of (leafToPaths t) (stripPrefixes path) of
                  None \<Rightarrow> True
                | Some candidatePaths \<Rightarrow> candidatePaths = []))
       \<and> split_on CHR ''/'' (stripPrefixes path) = map afterColon (split_on CHR ''/'' path)
       \<and> (CHR ''/'' \<notin> set path \<longrightarrow>
            stripPrefixes path = last (split_on CHR ''/'' (stripPrefixes full)))"
proof -
  have f: "full = fullPathOf path ctx"
    by (simp add: full_def fullPathOf_def)
  have fuzzy: "case map_of (leafToPaths t) (stripPrefixes path) of
               None \<Rightarrow> fuzzyResolve path t ctx = None
             | Some candidatePaths \<Rightarrow>
                 if candidatePaths = [] then fuzzyResolve path t ctx = None
                 else \<exists>c \<in> set candidatePaths.
                        fuzzyResolve path t ctx = map_of (pathToSid t) c
                        \<and> map_of (pathToSid t) c \<noteq> None"
  proof (cases "map_of (leafToPaths t) (stripPrefixes path)")
    case None
    then show ?thesis by (simp add: fuzzyResolve_def)
  next
    case (Some cands)
    show ?thesis
    proof (cases "cands = []")
      case True
      with Some show ?thesis by (simp add: fuzzyResolve_def)
    next
      case False
      from fuzzyResolve_first_maximal[OF Some False, of ctx] obtain k where
        k: "k < length cands" "fuzzyResolve path t ctx = map_of (pathToSid t) (cands ! k)"
        by blast
      from nth_known[OF known Some k(1)] k
      have "\<exists>c \<in> set cands. fuzzyResolve path t ctx = map_of (pathToSid t) c
                        \<and> map_of (pathToSid t) c \<noteq> None"
        by (intro bexI[of _ "cands ! k"]) simp_all
      with Some False show ?thesis by simp
    qed
  qed
  have one: "map_has (prefixedPathToSid t) full \<longrightarrow>
            resolvePathToSid path t ctx = map_of (prefixedPathToSid t) full"
    by (simp add: resolvePathToSid_def f)
  have two: "\<not> map_has (prefixedPathToSid t) full
            \<and> map_has (pathToSid t) (stripPrefixes full) \<longrightarrow>
            resolvePathToSid path t ctx = map_of (pathToSid t) (stripPrefixes full)"
    by (simp add: resolvePathToSid_def f)
  have r: "\<not> map_has (prefixedPathToSid t) full
            \<and> \<not> map_has (pathToSid t) (stripPrefixes full) \<Longrightarrow>
            resolvePathToSid path t ctx = fuzzyResolve path t ctx"
    by (simp add: resolvePathToSid_def f)
  have three: "\<not> map_has (prefixedPathToSid t) full
            \<and> \<not> map_has (pathToSid t) (stripPrefixes full) \<longrightarrow>
            (case map_of (leafToPaths t) (stripPrefixes path) of
               None \<Rightarrow> resolvePathToSid path t ctx = None
             | Some candidatePaths \<Rightarrow>
                 if candidatePaths = [] then resolvePathToSid path t ctx = None
                 else \<exists>c \<in> set candidatePaths.
                        resolvePathToSid path t ctx = map_of (pathToSid t) c
                        \<and> map_of (pathToSid t) c \<noteq> None)"
  proof
    assume m: "\<not> map_has (prefixedPathToSid t) full
            \<and> \<not> map_has (pathToSid t) (stripPrefixes full)"
    show "case map_of (leafToPaths t) (stripPrefixes path) of
               None \<Rightarrow> resolvePathToSid path t ctx = None
             | Some candidatePaths \<Rightarrow>
                 if candidatePaths = [] then resolvePathToSid path t ctx = None
                 else \<exists>c \<in> set candidatePaths.
                        resolvePathToSid path t ctx = map_of (pathToSid t) c
                        \<and> map_of (pathToSid t) c \<noteq> None"
      unfolding r[OF m] by (rule fuzzy)
  qed
  have four: "resolvePathToSid path t ctx = None \<longleftrightarrow>
            \<not> map_has (prefixedPathToSid t) full
            \<and> \<not> map_has (pathToSid t) (stripPrefixes full)
            \<and> (case map_of (leafToPaths t) (stripPrefixes path) of
                  None \<Rightarrow> True
                | Some candidatePaths \<Rightarrow> candidatePaths = [])"
  proof (cases "map_has (prefixedPathToSid t) full
        \<or> map_has (pathToSid t) (stripPrefixes full)")
    case True
    then show ?thesis by (auto simp: resolvePathToSid_def f map_has_def)
  next
    case False
    then have m: "\<not> map_has (prefixedPathToSid t) full
            \<and> \<not> map_has (pathToSid t) (stripPrefixes full)"
      by simp
    show ?thesis
      using fuzzy m unfolding r[OF m]
      by (cases "map_of (leafToPaths t) (stripPrefixes path)") (auto split: if_splits)
  qed
  have five: "split_on CHR ''/'' (stripPrefixes path) = map afterColon (split_on CHR ''/'' path)"
    by (rule stripPrefixes_pieces)
  have six: "CHR ''/'' \<notin> set path \<longrightarrow>
            stripPrefixes path = last (split_on CHR ''/'' (stripPrefixes full))"
    unfolding f by (simp add: stripPrefixes_segment)
  from one two three four five six show ?thesis by blast
qed

lemma buildItems_cascadeItems: "buildItems cascadeItems = cascadeTree"
  by (simp add: buildItems_def processSidItem_def cascadeItems_def item_paths_def item_ns_def
      registerIdentity_def indexLeaf_def emptyTree_def cascadeTree_def Let_def
      afterColon_def includes_char_def)

lemma stripPrefixes_samples:
  "stripPrefixes ''m:c/m:b'' = ''c/b''" "stripPrefixes ''c/b'' = ''c/b''"
  "stripPrefixes ''x:c/x:b'' = ''c/b''" "stripPrefixes ''q/b'' = ''q/b''"
  "stripPrefixes ''c/zzz'' = ''c/zzz''" "stripPrefixes ''b'' = ''b''"
  "stripPrefixes ''m:b'' = ''b''" "stripPrefixes ''x:b'' = ''b''"
  "stripPrefixes ''zzz'' = ''zzz''" "stripPrefixes ''y/b'' = ''y/b''"
  by (simp_all add: stripPrefixes_def afterColon_def includes_char_def)

theorem resolvePathToSid_cascade_witness:
  "leafIndexKnown (buildItems cascadeItems)
   \<and> resolvePathToSid ''m:b'' (buildItems cascadeItems) ''m:c'' = Some 2
   \<and> resolvePathToSid ''b'' (buildItems cascadeItems) ''c'' = Some 5
   \<and> resolvePathToSid ''x:b'' (buildItems cascadeItems) ''x:c'' = Some 5
   \<and> resolvePathToSid ''b'' (buildItems cascadeItems) ''q'' \<in> {Some 3, Some 5}
   \<and> resolvePathToSid ''zzz'' (buildItems cascadeItems) ''c'' = None"
proof -
  have k: "leafIndexKnown (buildItems cascadeItems)"
    using buildItems_invariants[of cascadeItems] by simp
  note t = buildItems_cascadeItems
  have a: "resolvePathToSid ''m:b'' (buildItems cascadeItems) ''m:c'' = Some 2"
    using resolvePathToSid_cascade[OF k, of "''m:c''" "''m:b''", THEN conjunct1]
    by (simp add: t cascadeTree_def map_has_def)
  have b: "resolvePathToSid ''b'' (buildItems cascadeItems) ''c'' = Some 5"
    using resolvePathToSid_cascade[OF k, of "''c''" "''b''", THEN conjunct2, THEN conjunct1]
    by (simp add: t cascadeTree_def map_has_def stripPrefixes_samples)
  have c: "resolvePathToSid ''x:b'' (buildItems cascadeItems) ''x:c'' = Some 5"
    using resolvePathToSid_cascade[OF k, of "''x:c''" "''x:b''", THEN conjunct2, THEN conjunct1]
    by (simp add: t cascadeTree_def map_has_def stripPrefixes_samples)
  have d: "resolvePathToSid ''b'' (buildItems cascadeItems) ''q'' \<in> {Some 3, Some 5}"
    using resolvePathToSid_cascade[OF k, of "''q''" "''b''",
        THEN conjunct2, THEN conjunct2, THEN conjunct1]
    by (auto simp: t cascadeTree_def map_has_def stripPrefixes_samples)
  have e: "resolvePathToSid ''zzz'' (buildItems cascadeItems) ''c'' = None"
    using resolvePathToSid_cascade[OF k, of "''c''" "''zzz''",
        THEN conjunct2, THEN conjunct2, THEN conjunct2, THEN conjunct1]
    by (simp add: t cascadeTree_def map_has_def stripPrefixes_samples)
  from k a b c d e show ?thesis by simp
qed

text \<open>
  The fuzzy stage looks the whole stripped \<open>path\<close> up. For the two-segment path \<open>y/b\<close>
  both direct lookups miss and the leaf index has candidates for the last segment \<open>b\<close>,
  but none for \<open>y/b\<close>, so no SID is returned.
\<close>

theorem multi_segment_path_counterexample:
  "leafIndexKnown (buildItems twoLeafItems)
   \<and> \<not> map_has (prefixedPathToSid (buildItems twoLeafItems)) ''y/b''
   \<and> \<not> map_has (pathToSid (buildItems twoLeafItems)) (stripPrefixes ''y/b'')
   \<and> last (split_on CHR ''/'' (stripPrefixes ''y/b'')) = ''b''
   \<and> map_of (leafToPaths (buildItems twoLeafItems)) ''b'' = Some [''a/x/b'', ''c/y/b'']
   \<and> resolvePathToSid ''y/b'' (buildItems twoLeafItems) [] = None"
  by (simp add: twoLeafTree_known)
     (simp add: buildItems_twoLeafItems twoLeafTree_def map_has_def stripPrefixes_samples
        resolvePathToSid_def fullPathOf_def fuzzyResolve_def)







section \<open>JavaScript numbers\<close>

lemma bitLength_bound: "n < 2 ^ k \<Longrightarrow> bitLength n \<le> k"
proof (induction k arbitrary: n)
  case 0
  then show ?case by (simp add: bitLength.simps)
next
  case (Suc k)
  show ?case
  proof (cases "n = 0")
    case True
    then show ?thesis by (simp add: bitLength.simps)
  next
    case False
    from Suc.prems have "n div 2 < 2 ^ k" by simp
    from Suc.IH[OF this] False show ?thesis by (subst bitLength.simps) simp
  qed
qed

lemma bitLength_exact: "2 ^ k \<le> n \<Longrightarrow> n < 2 ^ Suc k \<Longrightarrow> bitLength n = Suc k"
proof (induction k arbitrary: n)
  case 0
  then have "n = 1" by simp
  then show ?case by (simp add: bitLength.simps)
next
  case (Suc k)
  from Suc.prems have "2 ^ k \<le> n div 2" "n div 2 < 2 ^ Suc k" "n \<noteq> 0" by auto
  with Suc.IH[of "n div 2"] show ?case by (subst bitLength.simps) simp
qed

text \<open>An integer of fewer than 54 bits is a double; above, the low bits are rounded away.\<close>

lemma toDouble_safe: "\<bar>n\<bar> < 2 ^ 53 \<Longrightarrow> toDouble n = n"
proof -
  assume a: "\<bar>n\<bar> < 2 ^ 53"
  then have "nat \<bar>n\<bar> < 2 ^ 53" by (simp add: nat_less_iff)
  then have "bitLength (nat \<bar>n\<bar>) \<le> 53" by (rule bitLength_bound)
  then have "bitLength (nat \<bar>n\<bar>) - 53 = 0" by simp
  then show ?thesis by (simp add: toDouble_def Let_def mult_sgn_abs)
qed

lemma jsSub_safe: "safeSid a \<Longrightarrow> safeSid b \<Longrightarrow> jsSub a b = a - b"
  unfolding jsSub_def safeSid_def by (rule toDouble_safe) (simp add: abs_less_iff)

lemma jsAdd_safe: "safeSid a \<Longrightarrow> safeSid b \<Longrightarrow> jsAdd (a - b) b = a"
  unfolding jsAdd_def safeSid_def by (simp add: toDouble_safe)

lemma jsSub_small: "jsSub 103 100 = 3"
  by (simp add: jsSub_def toDouble_safe)

lemma toDouble_beyond_safe: "toDouble 9007199254740993 = 9007199254740992"
proof -
  have "bitLength 9007199254740993 = 54"
    using bitLength_exact[of 53 9007199254740993] by simp
  then show ?thesis by (simp add: toDouble_def Let_def)
qed

lemma safeSids_lookup: "safeSids m \<Longrightarrow> map_of m k = Some sid \<Longrightarrow> safeSid sid"
proof -
  assume s: "safeSids m" and "map_of m k = Some sid"
  then have "(k, sid) \<in> set m" by (simp add: map_of_SomeD)
  with s have "safeSid (snd (k, sid))" unfolding safeSids_def list_all_iff by (rule bspec)
  then show ?thesis by simp
qed

section \<open>Parents and Delta-SIDs\<close>

lemma findParent_filter:
  "findParent m parts n =
     (case filter (map_has m) (rev (map (\<lambda>i. join_with ''/'' (take i parts)) [1..<Suc n])) of
        [] \<Rightarrow> None
      | a # _ \<Rightarrow> map_of m a)"
proof (induction n)
  case 0
  then show ?case by simp
next
  case (Suc n)
  show ?case
  proof (cases "map_of m (join_with ''/'' (take (Suc n) parts))")
    case None
    with Suc show ?thesis by (simp add: map_has_def)
  next
    case (Some sid)
    then show ?thesis by (simp add: map_has_def)
  qed
qed

lemma upt_proper: "[1..<Suc (n - 1)] = [1..<n]"
  by (cases n) simp_all

lemma findParent_longest:
  "findParent m (pathParts p) (length (pathParts p) - 1) =
     (case longestKnownAncestor m p of None \<Rightarrow> None | Some a \<Rightarrow> map_of m a)"
proof -
  have "findParent m (pathParts p) (length (pathParts p) - 1) =
      (case filter (map_has m) (rev (ancestorPaths p)) of [] \<Rightarrow> None | a # _ \<Rightarrow> map_of m a)"
    unfolding ancestorPaths_def findParent_filter upt_proper ..
  then show ?thesis
    by (cases "filter (map_has m) (rev (ancestorPaths p))")
       (simp_all add: longestKnownAncestor_def)
qed

lemma findParent_longest_Suc:
  "findParent m (pathParts p) (length (pathParts p) - Suc 0) =
     (case longestKnownAncestor m p of None \<Rightarrow> None | Some a \<Rightarrow> map_of m a)"
  using findParent_longest[of m p] by (simp only: One_nat_def)

lemma makeNodeInfo_fields:
  "ni_sid (makeNodeInfo t p sid) = sid
   \<and> ni_parent (makeNodeInfo t p sid) =
       (case longestKnownAncestor (pathToSid t) p of None \<Rightarrow> None
        | Some a \<Rightarrow> map_of (pathToSid t) a)
   \<and> ni_deltaSid (makeNodeInfo t p sid) =
       (case ni_parent (makeNodeInfo t p sid) of None \<Rightarrow> sid | Some q \<Rightarrow> jsSub sid q)
   \<and> ni_depth (makeNodeInfo t p sid) = length (pathParts p)"
  by (simp add: makeNodeInfo_def Let_def findParent_longest_Suc)

lemma makeNodeInfo_parent_known:
  "ni_parent (makeNodeInfo t p sid) = Some q \<Longrightarrow> \<exists>a. map_of (pathToSid t) a = Some q"
  using makeNodeInfo_fields[of t p sid]
  by (cases "longestKnownAncestor (pathToSid t) p") auto

lemma makeNodeInfo_delta:
  assumes "safeSids (pathToSid t)" and "safeSid sid"
    and "ni_parent (makeNodeInfo t p sid) = Some q"
  shows "ni_deltaSid (makeNodeInfo t p sid) + q = ni_sid (makeNodeInfo t p sid)
     \<and> jsAdd (ni_deltaSid (makeNodeInfo t p sid)) q = ni_sid (makeNodeInfo t p sid)"
proof -
  from makeNodeInfo_parent_known[OF assms(3)] assms(1) have q: "safeSid q"
    by (auto intro: safeSids_lookup)
  have "ni_deltaSid (makeNodeInfo t p sid) = jsSub sid q" "ni_sid (makeNodeInfo t p sid) = sid"
    using makeNodeInfo_fields[of t p sid] assms(3) by simp_all
  then show ?thesis
    using jsSub_safe[OF assms(2) q] jsAdd_safe[OF assms(2) q] by simp
qed

lemma makeNodeInfo_cong:
  "pathToSid t' = pathToSid t \<Longrightarrow> sidToPrefixedPath t' = sidToPrefixedPath t \<Longrightarrow>
     pathToPrefixed t' = pathToPrefixed t \<Longrightarrow> makeNodeInfo t' p sid = makeNodeInfo t p sid"
  by (simp add: makeNodeInfo_def)

lemma makeNodeInfo_recalcStep: "makeNodeInfo (recalcStep e t) p sid = makeNodeInfo t p sid"
  by (rule makeNodeInfo_cong) (simp_all add: recalcStep_frame)

lemma nodeInfo_recalcStep:
  "map_of (nodeInfo (recalcStep (path, sid) t)) p =
     (if p = path \<and> \<not> isSynthetic path then Some (makeNodeInfo t path sid)
      else map_of (nodeInfo t) p)"
  by (simp add: recalcStep_def map_of_map_set)

lemma nodeInfo_fold_recalcStep:
  "distinct (map fst es) \<Longrightarrow>
     map_of (nodeInfo (fold recalcStep es t)) p =
       (case map_of es p of
          None \<Rightarrow> map_of (nodeInfo t) p
        | Some sid \<Rightarrow> if isSynthetic p then map_of (nodeInfo t) p
                      else Some (makeNodeInfo t p sid))"
proof (induction es arbitrary: t)
  case Nil
  then show ?case by simp
next
  case (Cons e es)
  obtain path sid where e: "e = (path, sid)" by (cases e)
  from Cons.prems e have notin: "map_of es path = None" and d: "distinct (map fst es)"
    by (auto simp: map_of_eq_None_iff)
  have mk: "makeNodeInfo (recalcStep (path, sid) t) p s = makeNodeInfo t p s" for s
    by (rule makeNodeInfo_recalcStep)
  show ?case
    using notin
    by (simp add: e Cons.IH[OF d] nodeInfo_recalcStep mk split: option.splits)
qed

lemma recalculateParents_agrees:
  assumes "distinct (map fst (pathToSid t))"
  shows "nodeInfoAgrees (recalculateParents t)"
proof -
  have s: "pathToSid (recalculateParents t) = pathToSid t"
    by (simp add: recalculateParents_def fold_recalcStep_frame)
  have "isSynthetic p \<or>
        (case map_of (nodeInfo (recalculateParents t)) p of
           None \<Rightarrow> False
         | Some info \<Rightarrow>
             ni_sid info = sid
             \<and> ni_parent info =
                 (case longestKnownAncestor (pathToSid t) p of
                    None \<Rightarrow> None
                  | Some a \<Rightarrow> map_of (pathToSid t) a)
             \<and> ni_deltaSid info =
                 (case ni_parent info of None \<Rightarrow> sid | Some q \<Rightarrow> jsSub sid q))"
    if "(p, sid) \<in> set (pathToSid t)" for p sid
  proof (cases "isSynthetic p")
    case True
    then show ?thesis by simp
  next
    case False
    from that assms have "map_of (pathToSid t) p = Some sid" by simp
    with False have "map_of (nodeInfo (recalculateParents t)) p = Some (makeNodeInfo t p sid)"
      by (simp add: recalculateParents_def nodeInfo_fold_recalcStep[OF assms])
    then show ?thesis using makeNodeInfo_fields[of t p sid] by simp
  qed
  then have "\<forall>entry \<in> set (pathToSid t). isSynthetic (fst entry) \<or>
        (case map_of (nodeInfo (recalculateParents t)) (fst entry) of
           None \<Rightarrow> False
         | Some info \<Rightarrow>
             ni_sid info = snd entry
             \<and> ni_parent info =
                 (case longestKnownAncestor (pathToSid t) (fst entry) of
                    None \<Rightarrow> None
                  | Some a \<Rightarrow> map_of (pathToSid t) a)
             \<and> ni_deltaSid info =
                 (case ni_parent info of None \<Rightarrow> snd entry | Some q \<Rightarrow> jsSub (snd entry) q))"
    by auto
  then show ?thesis
    unfolding nodeInfoAgrees_def list_all_iff s .
qed

lemma deltaInvariant_recalcStep:
  assumes s: "safeSids (pathToSid t)" and e: "safeSid (snd e)" and a: "deltaInvariant t"
  shows "deltaInvariant (recalcStep e t)"
proof -
  obtain path sid where ps: "e = (path, sid)" by (cases e)
  show ?thesis
  proof (cases "isSynthetic path")
    case True
    with a ps show ?thesis by (simp add: recalcStep_def)
  next
    case False
    then have n: "nodeInfo (recalcStep e t) = map_set (nodeInfo t) path (makeNodeInfo t path sid)"
      by (simp add: recalcStep_def ps)
    from e ps have sid: "safeSid sid" by simp
    show ?thesis
      unfolding deltaInvariant_def list_all_iff n
    proof
      fix x
      assume "x \<in> set (map_set (nodeInfo t) path (makeNodeInfo t path sid))"
      then have "x = (path, makeNodeInfo t path sid) \<or> x \<in> set (nodeInfo t)"
        by (rule set_map_set)
      then show "case ni_parent (snd x) of None \<Rightarrow> True
          | Some q \<Rightarrow> ni_deltaSid (snd x) + q = ni_sid (snd x)
              \<and> jsAdd (ni_deltaSid (snd x)) q = ni_sid (snd x)"
      proof
        assume x: "x = (path, makeNodeInfo t path sid)"
        show ?thesis
        proof (cases "ni_parent (makeNodeInfo t path sid)")
          case None
          with x show ?thesis by simp
        next
          case (Some q)
          from makeNodeInfo_delta[OF s sid Some] x Some show ?thesis by simp
        qed
      next
        assume "x \<in> set (nodeInfo t)"
        with a show ?thesis by (simp add: deltaInvariant_def list_all_iff)
      qed
    qed
  qed
qed

lemma deltaInvariant_fold_recalcStep:
  "safeSids (pathToSid t) \<Longrightarrow> safeSids es \<Longrightarrow> deltaInvariant t \<Longrightarrow>
     deltaInvariant (fold recalcStep es t)"
proof (induction es arbitrary: t)
  case Nil
  then show ?case by simp
next
  case (Cons e es)
  from Cons.prems(2) have e: "safeSid (snd e)" and es: "safeSids es"
    by (simp_all add: safeSids_def)
  have p: "safeSids (pathToSid (recalcStep e t))"
    using Cons.prems(1) by (simp add: recalcStep_frame)
  from Cons.IH[OF p es deltaInvariant_recalcStep[OF Cons.prems(1) e Cons.prems(3)]]
  show ?case by simp
qed

lemma deltaInvariant_recalculateParents:
  "safeSids (pathToSid t) \<Longrightarrow> deltaInvariant t \<Longrightarrow> deltaInvariant (recalculateParents t)"
  by (simp add: recalculateParents_def deltaInvariant_fold_recalcStep)

lemma pathToSid_recalculateParents: "pathToSid (recalculateParents t) = pathToSid t"
  by (simp add: recalculateParents_def fold_recalcStep_frame)

lemma nodeInfo_keys_recalculateParents:
  assumes "distinct (map fst (pathToSid t))" and "nodeInfo t = []"
    and "map_of (pathToSid t) p = None"
  shows "map_of (nodeInfo (recalculateParents t)) p = None"
  using assms(2,3) by (simp add: recalculateParents_def nodeInfo_fold_recalcStep[OF assms(1)])

lemma distinct_map_set: "distinct (map fst m) \<Longrightarrow> distinct (map fst (map_set m k v))"
proof (induction m)
  case Nil
  then show ?case by simp
next
  case (Cons e m)
  obtain a b where e: "e = (a, b)" by (cases e)
  have "fst ` set (map_set m k v) \<subseteq> insert k (fst ` set m)"
    using set_map_set[of _ m k v] by force
  with Cons e show ?case by auto
qed

lemma distinct_set_all: "distinct (map fst dst) \<Longrightarrow> distinct (map fst (set_all dst src))"
  unfolding set_all_def
proof (induction src arbitrary: dst)
  case Nil
  then show ?case by simp
next
  case (Cons e src)
  obtain a b where e: "e = (a, b)" by (cases e)
  from Cons show ?case by (simp add: e distinct_map_set)
qed

lemma merged_pathToSid_distinct:
  "distinct (map fst (pathToSid merged)) \<Longrightarrow>
     distinct (map fst (pathToSid (fold mergeInto trees merged)))
     \<and> distinct (map fst (pathToSid (fold mergeIntoMulti trees merged)))"
proof (induction trees arbitrary: merged)
  case Nil
  then show ?case by simp
next
  case (Cons tree trees)
  have a: "distinct (map fst (pathToSid (mergeInto tree merged)))"
    and b: "distinct (map fst (pathToSid (mergeIntoMulti tree merged)))"
    using Cons.prems by (simp_all add: mergeInto_def mergeIntoMulti_def distinct_set_all)
  from Cons.IH[OF a] Cons.IH[OF b] show ?case by simp
qed

lemma nodeInfo_processSidItem: "nodeInfo (processSidItem item t) = nodeInfo t"
  by (cases "item_paths item")
     (auto simp: processSidItem_def registerIdentity_def indexLeaf_def Let_def
        split: option.splits)

lemma nodeInfo_buildItems: "nodeInfo (buildItems items) = []"
proof -
  have "nodeInfo (fold processSidItem items t) = nodeInfo t" for t
    by (induction items arbitrary: t) (simp_all add: nodeInfo_processSidItem)
  then show ?thesis by (simp add: buildItems_def emptyTree_def)
qed

lemma nodeInfo_merged:
  "\<forall>tree \<in> set trees. nodeInfo tree = [] \<Longrightarrow> nodeInfo merged = [] \<Longrightarrow>
     nodeInfo (fold mergeInto trees merged) = []
     \<and> nodeInfo (fold mergeIntoMulti trees merged) = []"
proof (induction trees arbitrary: merged)
  case Nil
  then show ?case by simp
next
  case (Cons tree trees)
  have a: "nodeInfo (mergeInto tree merged) = []"
    and b: "nodeInfo (mergeIntoMulti tree merged) = []"
    using Cons.prems by (simp_all add: mergeInto_def mergeIntoMulti_def set_all_def)
  from Cons.prems have r: "\<forall>tree \<in> set trees. nodeInfo tree = []" by simp
  from Cons.IH[OF r a] Cons.IH[OF r b] show ?case by simp
qed

lemma rebuildSidTree_choice:
  "rebuildSidTree [choiceTree] = choiceTree\<lparr> nodeInfo :=
     [(''a/ch/b'', \<lparr> ni_sid = 1, ni_parent = None, ni_deltaSid = 1, ni_depth = 3,
                     ni_prefixedPath = ''m:a/m:ch/m:b'' \<rparr>)] \<rparr>"
  by (simp add: rebuildSidTree_def mergeInto_def emptyTree_def choiceTree_def set_all_def
      mergeLeaf_def uniq_def recalculateParents_def recalcStep_def isSynthetic_def
      startsWith_def makeNodeInfo_def pathParts_def Let_def)

lemma augment_choice:
  "augmentSidTreeWithAliases (choiceTree\<lparr> nodeInfo :=
     [(''a/ch/b'', \<lparr> ni_sid = 1, ni_parent = None, ni_deltaSid = 1, ni_depth = 3,
                     ni_prefixedPath = ''m:a/m:ch/m:b'' \<rparr>)] \<rparr>) {''ch''} {} = choiceLoaded"
proof -
  have a: "buildAlias (nameSet {''ch''}) (nameSet {}) ''m:a/m:ch/m:b'' = Some ''m:a/m:b''"
    by (simp add: buildAlias_spec specAlias_choice bareNames_def bareSeg_def afterColon_def
        includes_char_def)
  have s: "stripPrefixes ''m:a/m:b'' = ''a/b''"
    by (simp add: stripPrefixes_def afterColon_samples)
  show ?thesis
    by (simp add: augmentSidTreeWithAliases_def choiceTree_def aliasStep_def a s map_has_def
        choiceLoaded_def Let_def)
qed

lemma loadYangInputs_choiceEnv:
  "loadYangInputs choiceEnv = Inr (Rebuilt, choiceLoaded, emptyTypeTable\<lparr> choiceNames := {''ch''} \<rparr>)"
proof -
  have tt: "buildTypeTable [emptyTypeTable\<lparr> choiceNames := {''ch''} \<rparr>]
      = (emptyTypeTable\<lparr> choiceNames := {''ch''} \<rparr> :: (unit, unit, unit) typeTable)"
    by (simp add: buildTypeTable_def mergeTypeTable_def emptyTypeTable_def set_all_def
        mergeVendorTypedefs_def updateLeafTypes_def)
  have st: "loadSidTrees (the (readdirResult choiceEnv)) = Inr [choiceTree]"
    by (simp add: loadSidTrees_def choiceEnv_def endsWith_def buildSidTree_def
        buildItems_choiceItem)
  have yt: "loadTypeTables (the (readdirResult choiceEnv))
      = Inr [emptyTypeTable\<lparr> choiceNames := {''ch''} \<rparr>]"
    by (simp add: loadTypeTables_def choiceEnv_def endsWith_def)
  have rd: "readdirResult choiceEnv = Some (the (readdirResult choiceEnv))"
    by (simp add: choiceEnv_def)
  have "rebuild choiceEnv = Inr (choiceLoaded, emptyTypeTable\<lparr> choiceNames := {''ch''} \<rparr>)"
    unfolding rebuild_def
    by (subst rd) (simp add: st yt tt rebuildSidTree_choice augment_choice Let_def,
        simp add: emptyTypeTable_def augment_choice)
  then show ?thesis
    by (simp add: loadYangInputs_def choiceEnv_def)
qed

text \<open>
  After the rebuild of \<open>loadYangInputs\<close> a non-synthetic path of \<open>pathToSid\<close> can be
  without a \<open>nodeInfo\<close> entry: the alias \<open>a/b\<close> of \<open>a/ch/b\<close> is added by step 7, after
  the parents were computed.
\<close>

theorem alias_without_node_info_counterexample:
  "loadYangInputs choiceEnv = Inr (Rebuilt, choiceLoaded, emptyTypeTable\<lparr> choiceNames := {''ch''} \<rparr>)
   \<and> map_of (pathToSid choiceLoaded) ''a/b'' = Some 1
   \<and> \<not> isSynthetic ''a/b''
   \<and> map_of (nodeInfo choiceLoaded) ''a/b'' = None
   \<and> \<not> nodeInfoAgrees choiceLoaded"
  by (simp add: loadYangInputs_choiceEnv)
     (simp add: choiceLoaded_def isSynthetic_def startsWith_def nodeInfoAgrees_def)

lemma loadMultipleSidFiles_parentItems:
  "loadMultipleSidFiles [Some parentItems] = Inr parentTree"
proof -
  have b: "buildItems parentItems = parentTree\<lparr> nodeInfo := [] \<rparr>"
    by (simp add: buildItems_def processSidItem_def parentItems_def item_paths_def item_ns_def
        registerIdentity_def indexLeaf_def emptyTree_def parentTree_def Let_def
        afterColon_samples)
  have m: "mergeIntoMulti (parentTree\<lparr> nodeInfo := [] \<rparr>) emptyTree
      = parentTree\<lparr> nodeInfo := [] \<rparr>"
    by (simp add: mergeIntoMulti_def mergeInto_def emptyTree_def parentTree_def set_all_def
        mergeLeaf_def uniq_def)
  have r: "recalculateParents (parentTree\<lparr> nodeInfo := [] \<rparr>) = parentTree"
    by (simp add: recalculateParents_def recalcStep_def parentTree_def isSynthetic_def
        startsWith_def makeNodeInfo_def pathParts_def Let_def jsSub_small)
  show ?thesis
    by (simp add: loadMultipleSidFiles_def buildSidTree_def b m r)
qed

lemma augment_nodeInfo: "nodeInfo (augmentSidTreeWithAliases t cn ks) = nodeInfo t"
  using fold_aliasStep_frame[of "nameSet cn" "nameSet ks" "sidToPrefixedPath t" t]
  by (simp add: augmentSidTreeWithAliases_def)

lemma augment_keeps_paths:
  "map_of (pathToSid t) p = Some sid \<Longrightarrow>
     map_of (pathToSid (augmentSidTreeWithAliases t cn ks)) p = Some sid"
  by (simp add: augmentSidTreeWithAliases_def fold_aliasStep_pathToSid)

lemma deltaInvariant_nodeInfo: "nodeInfo t' = nodeInfo t \<Longrightarrow> deltaInvariant t' = deltaInvariant t"
  by (simp add: deltaInvariant_def)

lemma merged_trees_recalculated:
  assumes "\<forall>tree \<in> set trees. \<exists>items. tree = buildItems items"
  shows "nodeInfoAgrees (recalculateParents (fold mergeIntoMulti trees emptyTree))"
    and "safeSids (pathToSid (recalculateParents (fold mergeIntoMulti trees emptyTree))) \<Longrightarrow>
           deltaInvariant (recalculateParents (fold mergeIntoMulti trees emptyTree))"
    and "nodeInfoAgrees (rebuildSidTree trees)"
    and "safeSids (pathToSid (rebuildSidTree trees)) \<Longrightarrow> deltaInvariant (rebuildSidTree trees)"
    and "distinct (map fst (pathToSid (rebuildSidTree trees)))"
    and "map_of (pathToSid (rebuildSidTree trees)) p = None \<Longrightarrow>
           map_of (nodeInfo (rebuildSidTree trees)) p = None"
proof -
  have d: "distinct (map fst (pathToSid emptyTree))" by (simp add: emptyTree_def)
  note dm = merged_pathToSid_distinct[OF d, of trees]
  from assms have n: "\<forall>tree \<in> set trees. nodeInfo tree = []"
    by (auto simp: nodeInfo_buildItems)
  have e: "nodeInfo emptyTree = []" by (simp add: emptyTree_def)
  note nm = nodeInfo_merged[OF n e]
  show "nodeInfoAgrees (recalculateParents (fold mergeIntoMulti trees emptyTree))"
    using dm by (simp add: recalculateParents_agrees)
  show "nodeInfoAgrees (rebuildSidTree trees)"
    using dm by (simp add: rebuildSidTree_def recalculateParents_agrees)
  show "distinct (map fst (pathToSid (rebuildSidTree trees)))"
    using dm by (simp add: rebuildSidTree_def pathToSid_recalculateParents)
  have "deltaInvariant (fold mergeIntoMulti trees emptyTree)"
    using nm by (simp add: deltaInvariant_def)
  then show "deltaInvariant (recalculateParents (fold mergeIntoMulti trees emptyTree))"
    if "safeSids (pathToSid (recalculateParents (fold mergeIntoMulti trees emptyTree)))"
    using that by (simp add: pathToSid_recalculateParents deltaInvariant_recalculateParents)
  have "deltaInvariant (fold mergeInto trees emptyTree)"
    using nm by (simp add: deltaInvariant_def)
  then show "deltaInvariant (rebuildSidTree trees)"
    if "safeSids (pathToSid (rebuildSidTree trees))"
    using that
    by (simp add: rebuildSidTree_def pathToSid_recalculateParents
        deltaInvariant_recalculateParents)
  show "map_of (nodeInfo (rebuildSidTree trees)) p = None"
    if "map_of (pathToSid (rebuildSidTree trees)) p = None"
    unfolding rebuildSidTree_def
  proof (rule nodeInfo_keys_recalculateParents)
    show "distinct (map fst (pathToSid (fold mergeInto trees emptyTree)))"
      using dm by simp
    show "nodeInfo (fold mergeInto trees emptyTree) = []"
      using nm by simp
    show "map_of (pathToSid (fold mergeInto trees emptyTree)) p = None"
      using that by (simp add: rebuildSidTree_def pathToSid_recalculateParents)
  qed
qed

lemma safeSids_before_augmentation:
  assumes "distinct (map fst (pathToSid t))"
    and "safeSids (pathToSid (augmentSidTreeWithAliases t cn ks))"
  shows "safeSids (pathToSid t)"
  unfolding safeSids_def list_all_iff
proof
  fix entry
  assume "entry \<in> set (pathToSid t)"
  with assms(1) have "map_of (pathToSid t) (fst entry) = Some (snd entry)" by simp
  then have "map_of (pathToSid (augmentSidTreeWithAliases t cn ks)) (fst entry)
      = Some (snd entry)"
    by (rule augment_keeps_paths)
  with assms(2) show "safeSid (snd entry)" by (rule safeSids_lookup)
qed

text \<open>
  Beyond the safe integers the subtraction rounds: for a node of SID \<open>2 ^ 53 + 2\<close> under
  a parent of SID \<open>1\<close> the loop stores \<open>deltaSid = 2 ^ 53\<close>, and \<open>deltaSid + parent\<close> is
  \<open>2 ^ 53\<close> again, not the SID.
\<close>

lemma deltaSid_beyond_safe_integers:
  "jsSub 9007199254740994 1 = 9007199254740992
   \<and> jsAdd (jsSub 9007199254740994 1) 1 = 9007199254740992
   \<and> \<not> safeSid 9007199254740994"
  by (simp add: jsSub_def jsAdd_def toDouble_beyond_safe safeSid_def)

text \<open>
  C1, as the loaders have it. The tree \<open>loadMultipleSidFiles\<close> returns has, for every
  non-synthetic path of its \<open>pathToSid\<close>, a \<open>nodeInfo\<close> entry with the path's SID, with
  the SID of the longest known ancestor path as parent (none when there is none) and with
  \<open>deltaSid\<close> the value of \<open>sid - parent\<close>, or the SID itself without a parent; and when
  the SIDs are non-negative safe integers, every \<open>nodeInfo\<close> entry with a parent
  satisfies \<open>deltaSid + parent = sid\<close>. In the rebuild of \<open>loadYangInputs\<close> the same
  holds of the merged tree after step 3, with respect to that tree's \<open>pathToSid\<close>; the
  alias augmentation of step 7 then keeps \<open>nodeInfo\<close> as it is and keeps every path of
  \<open>pathToSid\<close>, so the returned tree has those entries and the
  \<open>deltaSid + parent = sid\<close> property, while no path that step 7 adds has an entry.
\<close>

theorem node_info_after_parent_recalculation:
  "(loadMultipleSidFiles files = Inr t \<longrightarrow>
        nodeInfoAgrees t \<and> (safeSids (pathToSid t) \<longrightarrow> deltaInvariant t))
   \<and> (readdirResult env = Some allFiles \<and> loadSidTrees allFiles = Inr trees
        \<and> rebuild env = Inr (t', tt) \<longrightarrow>
        t' = augmentSidTreeWithAliases (rebuildSidTree trees) (choiceNames tt) (caseNames tt)
        \<and> nodeInfoAgrees (rebuildSidTree trees)
        \<and> nodeInfo t' = nodeInfo (rebuildSidTree trees)
        \<and> (safeSids (pathToSid t') \<longrightarrow> deltaInvariant t')
        \<and> (\<forall>p sid. map_of (pathToSid (rebuildSidTree trees)) p = Some sid \<longrightarrow>
               map_of (pathToSid t') p = Some sid)
        \<and> (\<forall>p. map_of (pathToSid (rebuildSidTree trees)) p = None \<longrightarrow>
               map_of (nodeInfo t') p = None))"
proof (intro conjI impI)
  assume l: "loadMultipleSidFiles files = Inr t"
  then obtain trees where a: "allOrError (map buildSidTree files) = Inr trees"
    and t: "t = recalculateParents (fold mergeIntoMulti trees emptyTree)"
    by (cases "allOrError (map buildSidTree files)") (auto simp: loadMultipleSidFiles_def)
  from built_trees[OF a] t
  show "nodeInfoAgrees t"
    by (simp add: merged_trees_recalculated(1))
  show "deltaInvariant t" if "safeSids (pathToSid t)"
    using merged_trees_recalculated(2)[OF built_trees[OF a]] that t by simp
next
  assume h: "readdirResult env = Some allFiles \<and> loadSidTrees allFiles = Inr trees
        \<and> rebuild env = Inr (t', tt)"
  then have b: "\<forall>tree \<in> set trees. \<exists>items. tree = buildItems items"
    using built_trees[of "map de_sid (filter (\<lambda>f. endsWith (de_name f) ''.sid'') allFiles)" trees]
    by (simp add: loadSidTrees_def comp_def)
  from h show t': "t' = augmentSidTreeWithAliases (rebuildSidTree trees)
      (choiceNames tt) (caseNames tt)"
    by (auto simp: rebuild_def Let_def split: sum.splits)
  show "nodeInfoAgrees (rebuildSidTree trees)"
    using b by (rule merged_trees_recalculated(3))
  show n: "nodeInfo t' = nodeInfo (rebuildSidTree trees)"
    by (simp add: t' augment_nodeInfo)
  show "deltaInvariant t'" if s: "safeSids (pathToSid t')"
  proof -
    have "safeSids (pathToSid (rebuildSidTree trees))"
      using merged_trees_recalculated(5)[OF b] s[unfolded t']
      by (rule safeSids_before_augmentation)
    from merged_trees_recalculated(4)[OF b this] deltaInvariant_nodeInfo[OF n]
    show ?thesis by simp
  qed
  show "\<forall>p sid. map_of (pathToSid (rebuildSidTree trees)) p = Some sid \<longrightarrow>
               map_of (pathToSid t') p = Some sid"
    by (simp add: t' augment_keeps_paths)
  show "\<forall>p. map_of (pathToSid (rebuildSidTree trees)) p = None \<longrightarrow>
               map_of (nodeInfo t') p = None"
    using merged_trees_recalculated(6)[OF b] by (simp add: n)
qed

theorem node_info_after_parent_recalculation_witness:
  "loadMultipleSidFiles [Some parentItems] = Inr parentTree
   \<and> safeSids (pathToSid parentTree)
   \<and> nodeInfoAgrees parentTree \<and> deltaInvariant parentTree
   \<and> map_of (nodeInfo parentTree) ''a/b''
       = Some \<lparr> ni_sid = 103, ni_parent = Some 100, ni_deltaSid = 3, ni_depth = 2,
                ni_prefixedPath = ''m:a/m:b'' \<rparr>
   \<and> longestKnownAncestor (pathToSid parentTree) ''a/b'' = Some ''a''
   \<and> nodeInfoAgrees (rebuildSidTree [choiceTree])
   \<and> nodeInfo choiceLoaded = nodeInfo (rebuildSidTree [choiceTree])
   \<and> safeSids (pathToSid choiceLoaded)
   \<and> deltaInvariant choiceLoaded
   \<and> map_of (pathToSid (rebuildSidTree [choiceTree])) ''a/b'' = None
   \<and> map_of (pathToSid choiceLoaded) ''a/b'' = Some 1
   \<and> map_of (nodeInfo choiceLoaded) ''a/b'' = None"
proof -
  note l = loadMultipleSidFiles_parentItems
  have s: "safeSids (pathToSid parentTree)"
    by (simp add: parentTree_def safeSids_def safeSid_def)
  note th1 = node_info_after_parent_recalculation[of "[Some parentItems]" parentTree,
      THEN conjunct1, THEN mp, OF l]
  have a: "nodeInfoAgrees parentTree \<and> deltaInvariant parentTree"
    using th1[THEN conjunct1] th1[THEN conjunct2, THEN mp, OF s] by simp
  have b: "map_of (nodeInfo parentTree) ''a/b''
       = Some \<lparr> ni_sid = 103, ni_parent = Some 100, ni_deltaSid = 3, ni_depth = 2,
                ni_prefixedPath = ''m:a/m:b'' \<rparr>"
    by (simp add: parentTree_def)
  have c: "longestKnownAncestor (pathToSid parentTree) ''a/b'' = Some ''a''"
    by (simp add: longestKnownAncestor_def ancestorPaths_def pathParts_def parentTree_def
        map_has_def)
  have rd: "readdirResult choiceEnv = Some (the (readdirResult choiceEnv))"
    by (simp add: choiceEnv_def)
  have st: "loadSidTrees (the (readdirResult choiceEnv)) = Inr [choiceTree]"
    by (simp add: loadSidTrees_def choiceEnv_def endsWith_def buildSidTree_def
        buildItems_choiceItem)
  have rb: "rebuild choiceEnv
      = Inr (choiceLoaded, emptyTypeTable\<lparr> choiceNames := {''ch''} \<rparr>)"
    using loadYangInputs_choiceEnv
    by (simp add: loadYangInputs_def choiceEnv_def split: sum.splits)
  have h: "readdirResult choiceEnv = Some (the (readdirResult choiceEnv))
      \<and> loadSidTrees (the (readdirResult choiceEnv)) = Inr [choiceTree]
      \<and> rebuild choiceEnv
          = Inr (choiceLoaded, emptyTypeTable\<lparr> choiceNames := {''ch''} \<rparr>)"
    using rd st rb by simp
  note th2 = node_info_after_parent_recalculation[of _ _ choiceEnv
      "the (readdirResult choiceEnv)" "[choiceTree]" choiceLoaded
      "emptyTypeTable\<lparr> choiceNames := {''ch''} \<rparr>", THEN conjunct2, THEN mp, OF h]
  have s2: "safeSids (pathToSid choiceLoaded)"
    by (simp add: choiceLoaded_def safeSids_def safeSid_def)
  have d: "nodeInfoAgrees (rebuildSidTree [choiceTree])
      \<and> nodeInfo choiceLoaded = nodeInfo (rebuildSidTree [choiceTree])"
    using th2 by simp
  have e: "deltaInvariant choiceLoaded"
    using th2[THEN conjunct2, THEN conjunct2, THEN conjunct2, THEN conjunct1, THEN mp, OF s2] .
  have f: "map_of (pathToSid (rebuildSidTree [choiceTree])) ''a/b'' = None"
    unfolding rebuildSidTree_choice by (simp add: choiceTree_def)
  have g: "map_of (nodeInfo choiceLoaded) ''a/b'' = None"
    using th2[THEN conjunct2, THEN conjunct2, THEN conjunct2, THEN conjunct2, THEN conjunct2,
        rule_format, OF f] .
  have i: "map_of (pathToSid choiceLoaded) ''a/b'' = Some 1"
    by (simp add: choiceLoaded_def)
  from l s a b c d s2 e f g i show ?thesis by simp
qed

section \<open>Vendor typedef merging\<close>

lemma map_of_fold_set:
  "map_of (fold (\<lambda>(k, v) m. map_set m k v) es m) = map_of m ++ map_of (rev es)"
proof (induction es arbitrary: m)
  case Nil
  then show ?case by simp
next
  case (Cons e es)
  obtain k v where e: "e = (k, v)" by (cases e)
  show ?case
    by (simp add: Cons.IH e map_of_map_set fun_eq_iff map_add_def split: option.splits)
qed

lemma map_of_set_all: "map_of (set_all m es) = map_of m ++ map_of (rev es)"
  by (simp add: set_all_def map_of_fold_set)

lemma map_of_rev_distinct: "distinct (map fst xs) \<Longrightarrow> map_of (rev xs) = map_of xs"
proof (induction xs)
  case Nil
  then show ?case by simp
next
  case (Cons e xs)
  obtain k v where e: "e = (k, v)" by (cases e)
  from Cons.prems e have "map_of xs k = None"
    by (simp add: map_of_eq_None_iff)
  with Cons e show ?case
    by (auto simp: fun_eq_iff map_add_def split: option.splits)
qed

lemma map_of_mapFromEntries:
  "distinct (map fst xs) \<Longrightarrow> distinct (map fst ys) \<Longrightarrow>
     map_of (mapFromEntries (xs @ ys)) = map_of xs ++ map_of ys"
  by (simp add: mapFromEntries_def map_of_set_all map_of_rev_distinct)

lemma mergedEnum_maps:
  assumes "enumKeysDistinct be" and "enumKeysDistinct ve"
  shows "map_of (nameToValue (mergedEnum be ve)) = map_of (nameToValue be) ++ map_of (nameToValue ve)"
    and "map_of (valueToName (mergedEnum be ve)) = map_of (valueToName be) ++ map_of (valueToName ve)"
  using assms by (simp_all add: mergedEnum_def enumKeysDistinct_def map_of_mapFromEntries)

lemma prefixes_exclusive: "\<not> (startsWith name ''velocitysp-'' \<and> startsWith name ''mchp-'')"
  by (cases name) (auto simp: startsWith_def)

lemma mergePrefix_miss:
  "\<not> startsWith name pfx \<Longrightarrow> mergePrefix name td pfx st = st"
  by (cases st) (simp add: mergePrefix_def)

lemma mergePrefix_other:
  "b \<noteq> drop (length pfx) name \<Longrightarrow>
     map_of (fst (mergePrefix name td pfx st)) b = map_of (fst st) b"
  by (cases st) (simp add: mergePrefix_def Let_def map_of_map_set split: option.splits)

lemma mergePrefix_hit:
  assumes "startsWith name pfx" and "map_of (fst st) (drop (length pfx) name) = Some bt"
    and "ti_enum bt = Some be" and "ti_enum td = Some ve"
  shows "mergePrefix name td pfx st =
     (map_set (fst st) (drop (length pfx) name)
        (td\<lparr> ti_enum := Some (mergedEnum be ve), ti_original := Some (drop (length pfx) name) \<rparr>),
      insert (drop (length pfx) name) (snd st))"
  using assms by (cases st) (simp add: mergePrefix_def Let_def)

lemma mergePrefix_merged_mono: "snd st \<subseteq> snd (mergePrefix name td pfx st)"
  by (cases st) (auto simp: mergePrefix_def Let_def split: option.splits)

lemma mergeTypedefEntry_unfold:
  "mergeTypedefEntry name st =
     (case map_of (fst st) name of
        None \<Rightarrow> st
      | Some td \<Rightarrow> mergePrefix name td ''mchp-'' (mergePrefix name td ''velocitysp-'' st))"
  by (simp add: mergeTypedefEntry_def vendorPrefixes_def split: option.splits)

lemma vendorBases_member:
  "pfx \<in> set vendorPrefixes \<Longrightarrow> startsWith name pfx \<Longrightarrow>
     drop (length pfx) name \<in> set (vendorBases name)"
  by (simp add: vendorBases_def)

lemma mergeTypedefEntry_other:
  assumes "b \<notin> set (vendorBases name)"
  shows "map_of (fst (mergeTypedefEntry name st)) b = map_of (fst st) b"
proof (cases "map_of (fst st) name")
  case None
  then show ?thesis by (simp add: mergeTypedefEntry_unfold)
next
  case (Some td)
  have v: "map_of (fst (mergePrefix name td ''velocitysp-'' st)) b = map_of (fst st) b"
  proof (cases "startsWith name ''velocitysp-''")
    case True
    with assms have "b \<noteq> drop (length ''velocitysp-'') name"
      using vendorBases_member[of "''velocitysp-''" name] by (auto simp: vendorPrefixes_def)
    then show ?thesis by (rule mergePrefix_other)
  next
    case False
    then show ?thesis by (simp add: mergePrefix_miss)
  qed
  have m: "map_of (fst (mergePrefix name td ''mchp-'' st')) b = map_of (fst st') b" for st'
  proof (cases "startsWith name ''mchp-''")
    case True
    with assms have "b \<noteq> drop (length ''mchp-'') name"
      using vendorBases_member[of "''mchp-''" name] by (auto simp: vendorPrefixes_def)
    then show ?thesis by (rule mergePrefix_other)
  next
    case False
    then show ?thesis by (simp add: mergePrefix_miss)
  qed
  from Some v m show ?thesis by (simp add: mergeTypedefEntry_unfold)
qed

lemma mergeTypedefEntry_merged_mono: "snd st \<subseteq> snd (mergeTypedefEntry name st)"
proof (cases "map_of (fst st) name")
  case None
  then show ?thesis by (simp add: mergeTypedefEntry_unfold)
next
  case (Some td)
  have "snd st \<subseteq> snd (mergePrefix name td ''velocitysp-'' st)"
    by (rule mergePrefix_merged_mono)
  also have "\<dots> \<subseteq> snd (mergePrefix name td ''mchp-'' (mergePrefix name td ''velocitysp-'' st))"
    by (rule mergePrefix_merged_mono)
  finally show ?thesis using Some by (simp add: mergeTypedefEntry_unfold)
qed

lemma fold_mergeTypedefEntry_other:
  "\<forall>name \<in> set names. b \<notin> set (vendorBases name) \<Longrightarrow>
     map_of (fst (fold mergeTypedefEntry names st)) b = map_of (fst st) b"
  by (induction names arbitrary: st) (simp_all add: mergeTypedefEntry_other)

lemma fold_mergeTypedefEntry_merged_mono:
  "snd st \<subseteq> snd (fold mergeTypedefEntry names st)"
proof (induction names arbitrary: st)
  case Nil
  then show ?case by simp
next
  case (Cons name names)
  have "snd st \<subseteq> snd (mergeTypedefEntry name st)" by (rule mergeTypedefEntry_merged_mono)
  also have "\<dots> \<subseteq> snd (fold mergeTypedefEntry names (mergeTypedefEntry name st))"
    by (rule Cons.IH)
  finally show ?case by simp
qed

lemma mergeTypedefEntry_hit:
  assumes "pfx \<in> set vendorPrefixes" and "startsWith name pfx"
    and "map_of (fst st) name = Some vt"
    and "map_of (fst st) (drop (length pfx) name) = Some bt"
    and "ti_enum bt = Some be" and "ti_enum vt = Some ve"
  shows "mergeTypedefEntry name st =
     (map_set (fst st) (drop (length pfx) name)
        (vt\<lparr> ti_enum := Some (mergedEnum be ve), ti_original := Some (drop (length pfx) name) \<rparr>),
      insert (drop (length pfx) name) (snd st))"
proof -
  from assms(1) consider "pfx = ''velocitysp-''" | "pfx = ''mchp-''"
    by (auto simp: vendorPrefixes_def)
  then show ?thesis
  proof cases
    case 1
    with assms(2) have "\<not> startsWith name ''mchp-''" using prefixes_exclusive[of name] by simp
    then have "mergeTypedefEntry name st = mergePrefix name vt pfx st"
      using assms(3) 1 by (simp add: mergeTypedefEntry_unfold mergePrefix_miss)
    with assms show ?thesis by (simp add: mergePrefix_hit)
  next
    case 2
    with assms(2) have "\<not> startsWith name ''velocitysp-''" using prefixes_exclusive[of name] by simp
    then have "mergeTypedefEntry name st = mergePrefix name vt pfx st"
      using assms(3) 2 by (simp add: mergeTypedefEntry_unfold mergePrefix_miss)
    with assms show ?thesis by (simp add: mergePrefix_hit)
  qed
qed

lemma key_position:
  assumes v: "map_of tds V = Some vt"
  shows "\<exists>pre post. map fst tds = pre @ V # post"
proof -
  from v have "(V, vt) \<in> set tds" by (rule map_of_SomeD)
  then have "fst (V, vt) \<in> fst ` set tds" by (rule imageI)
  then have "V \<in> set (map fst tds)" by simp
  then show ?thesis by (rule split_list)
qed

lemma keys_around:
  assumes d: "distinct (map fst tds)" and sp: "map fst tds = pre @ V # post"
  shows "V \<notin> set pre \<and> V \<notin> set post \<and> set pre \<subseteq> fst ` set tds \<and> set post \<subseteq> fst ` set tds"
proof -
  from d have "distinct (pre @ V # post)" by (simp only: sp)
  then have npre: "V \<notin> set pre" and npost: "V \<notin> set post" by auto
  have "set (map fst tds) = set (pre @ V # post)" by (simp only: sp)
  then have "fst ` set tds = set pre \<union> insert V (set post)" by simp
  then have sub: "set pre \<subseteq> fst ` set tds" "set post \<subseteq> fst ` set tds"
    by auto
  from npre npost sub show ?thesis by simp
qed

lemma sole_vendor_merge:
  assumes d: "distinct (map fst tds)"
    and p: "pfx \<in> set vendorPrefixes" and sw: "startsWith V pfx"
    and v: "map_of tds V = Some vt" and b: "map_of tds (drop (length pfx) V) = Some bt"
    and be: "ti_enum bt = Some be" and ve: "ti_enum vt = Some ve"
    and sole: "\<forall>name \<in> fst ` set tds. name \<noteq> V \<longrightarrow> drop (length pfx) V \<notin> set (vendorBases name)"
    and nobase: "\<forall>name \<in> fst ` set tds. V \<notin> set (vendorBases name)"
  shows "map_of (fst (mergeVendorTypedefs tds)) (drop (length pfx) V) =
           Some (vt\<lparr> ti_enum := Some (mergedEnum be ve),
                      ti_original := Some (drop (length pfx) V) \<rparr>)
         \<and> drop (length pfx) V \<in> snd (mergeVendorTypedefs tds)"
proof -
  let ?B = "drop (length pfx) V"
  from key_position[OF v] obtain pre post where sp: "map fst tds = pre @ V # post"
    by (elim exE)
  note around = keys_around[OF d sp]
  note npre = around[THEN conjunct1]
  note npost = around[THEN conjunct2, THEN conjunct1]
  note subpre = around[THEN conjunct2, THEN conjunct2, THEN conjunct1]
  note subpost = around[THEN conjunct2, THEN conjunct2, THEN conjunct2]
  have c1: "\<forall>name \<in> set pre. ?B \<notin> set (vendorBases name)"
  proof
    fix name
    assume n: "name \<in> set pre"
    with subpre have m: "name \<in> fst ` set tds" by (rule subsetD)
    from n npre have "name \<noteq> V" by (cases "name = V") simp_all
    then show "?B \<notin> set (vendorBases name)" by (rule sole[rule_format, OF m])
  qed
  have c2: "\<forall>name \<in> set pre. V \<notin> set (vendorBases name)"
  proof
    fix name
    assume "name \<in> set pre"
    with subpre have "name \<in> fst ` set tds" by (rule subsetD)
    then show "V \<notin> set (vendorBases name)" by (rule nobase[rule_format])
  qed
  have c3: "\<forall>name \<in> set post. ?B \<notin> set (vendorBases name)"
  proof
    fix name
    assume n: "name \<in> set post"
    with subpost have m: "name \<in> fst ` set tds" by (rule subsetD)
    from n npost have "name \<noteq> V" by (cases "name = V") simp_all
    then show "?B \<notin> set (vendorBases name)" by (rule sole[rule_format, OF m])
  qed
  let ?s1 = "fold mergeTypedefEntry pre (tds, {})"
  have b1: "map_of (fst ?s1) ?B = Some bt"
    using fold_mergeTypedefEntry_other[OF c1, of "(tds, {})"] b by simp
  have v1: "map_of (fst ?s1) V = Some vt"
    using fold_mergeTypedefEntry_other[OF c2, of "(tds, {})"] v by simp
  let ?s2 = "mergeTypedefEntry V ?s1"
  have s2: "?s2 = (map_set (fst ?s1) ?B (vt\<lparr> ti_enum := Some (mergedEnum be ve),
                      ti_original := Some ?B \<rparr>), insert ?B (snd ?s1))"
    using p sw v1 b1 be ve by (rule mergeTypedefEntry_hit)
  let ?s3 = "fold mergeTypedefEntry post ?s2"
  have "map_of (fst ?s3) ?B = map_of (fst ?s2) ?B"
    using c3 by (rule fold_mergeTypedefEntry_other)
  then have r1: "map_of (fst ?s3) ?B = Some (vt\<lparr> ti_enum := Some (mergedEnum be ve),
                      ti_original := Some ?B \<rparr>)"
    by (simp add: s2 map_of_map_set)
  have "?B \<in> snd ?s2" by (simp add: s2)
  then have r2: "?B \<in> snd ?s3"
    using fold_mergeTypedefEntry_merged_mono[of ?s2 post] by auto
  have "mergeVendorTypedefs tds = ?s3"
    by (simp add: mergeVendorTypedefs_def sp)
  with r1 r2 show ?thesis by simp
qed

lemma mergePrefix_cases:
  "mergePrefix name td pfx st = st
   \<or> (\<exists>info. ti_original info = Some (drop (length pfx) name)
         \<and> mergePrefix name td pfx st =
             (map_set (fst st) (drop (length pfx) name) info,
              insert (drop (length pfx) name) (snd st)))"
proof (cases "startsWith name pfx")
  case False
  then show ?thesis by (simp add: mergePrefix_miss)
next
  case True
  show ?thesis
  proof (cases "map_of (fst st) (drop (length pfx) name)")
    case None
    with True show ?thesis by (cases st) (simp add: mergePrefix_def Let_def)
  next
    case (Some bt)
    show ?thesis
    proof (cases "ti_enum bt")
      case None
      with True Some show ?thesis by (cases st) (simp add: mergePrefix_def Let_def)
    next
      case be: (Some be)
      show ?thesis
      proof (cases "ti_enum td")
        case None
        with True Some be show ?thesis by (cases st) (simp add: mergePrefix_def Let_def)
      next
        case ve: (Some ve)
        have "ti_original (td\<lparr> ti_enum := Some (mergedEnum be ve),
            ti_original := Some (drop (length pfx) name) \<rparr>) = Some (drop (length pfx) name)"
          by simp
        with mergePrefix_hit[OF True Some be ve] show ?thesis by blast
      qed
    qed
  qed
qed

lemma mergePrefix_known:
  assumes "mergedKnown st"
  shows "mergedKnown (mergePrefix name td pfx st)"
proof -
  from mergePrefix_cases[of name td pfx st] show ?thesis
  proof
    assume "mergePrefix name td pfx st = st"
    with assms show ?thesis by simp
  next
    assume "\<exists>info. ti_original info = Some (drop (length pfx) name)
         \<and> mergePrefix name td pfx st =
             (map_set (fst st) (drop (length pfx) name) info,
              insert (drop (length pfx) name) (snd st))"
    then obtain info where i: "ti_original info = Some (drop (length pfx) name)"
      and m: "mergePrefix name td pfx st =
             (map_set (fst st) (drop (length pfx) name) info,
              insert (drop (length pfx) name) (snd st))"
      by blast
    show ?thesis
      unfolding mergedKnown_def m
    proof
      fix b
      assume "b \<in> snd (map_set (fst st) (drop (length pfx) name) info,
              insert (drop (length pfx) name) (snd st))"
      then have "b = drop (length pfx) name \<or> b \<in> snd st" by simp
      then show "\<exists>md. map_of (fst (map_set (fst st) (drop (length pfx) name) info,
              insert (drop (length pfx) name) (snd st))) b = Some md \<and> ti_original md = Some b"
        using assms i by (cases "b = drop (length pfx) name")
          (auto simp: mergedKnown_def map_of_map_set)
    qed
  qed
qed

lemma mergeTypedefEntry_known: "mergedKnown st \<Longrightarrow> mergedKnown (mergeTypedefEntry name st)"
  by (cases "map_of (fst st) name") (simp_all add: mergeTypedefEntry_unfold mergePrefix_known)

lemma mergeVendorTypedefs_known: "mergedKnown (mergeVendorTypedefs tds)"
proof -
  have "mergedKnown st \<Longrightarrow> mergedKnown (fold mergeTypedefEntry names st)" for names st
    by (induction names arbitrary: st) (simp_all add: mergeTypedefEntry_known)
  moreover have "mergedKnown (tds, {})" by (simp add: mergedKnown_def)
  ultimately show ?thesis by (simp add: mergeVendorTypedefs_def)
qed

lemma updateLeafType_lookup:
  "map_of (updateLeafType tds M path tys) p =
     (if p = path then map_option (rewrittenType tds M) (map_of tys path) else map_of tys p)"
  by (auto simp: updateLeafType_def rewrittenType_def map_of_map_set split: option.splits)

lemma fold_updateLeafType:
  "distinct ks \<Longrightarrow>
     map_of (fold (updateLeafType tds M) ks tys) p =
       (if p \<in> set ks then map_option (rewrittenType tds M) (map_of tys p) else map_of tys p)"
proof (induction ks arbitrary: tys)
  case Nil
  then show ?case by simp
next
  case (Cons k ks)
  then have d: "distinct ks" and nk: "k \<notin> set ks" by simp_all
  show ?case
    using nk by (auto simp: Cons.IH[OF d] updateLeafType_lookup)
qed

lemma updateLeafTypes_lookup:
  assumes "distinct (map fst tys)"
  shows "map_of (updateLeafTypes tds M tys) p = map_option (rewrittenType tds M) (map_of tys p)"
proof (cases "p \<in> set (map fst tys)")
  case True
  with assms show ?thesis by (simp add: updateLeafTypes_def fold_updateLeafType)
next
  case False
  then have "map_of tys p = None" by (simp add: map_of_eq_None_iff)
  with assms False show ?thesis by (simp add: updateLeafTypes_def fold_updateLeafType)
qed

lemma merged_tables_distinct:
  "distinct (map fst (types tt)) \<and> distinct (map fst (typedefs tt)) \<Longrightarrow>
     distinct (map fst (types (fold mergeTypeTable tables tt)))
     \<and> distinct (map fst (typedefs (fold mergeTypeTable tables tt)))"
proof (induction tables arbitrary: tt)
  case Nil
  then show ?case by simp
next
  case (Cons table tables)
  have "distinct (map fst (types (mergeTypeTable table tt)))
      \<and> distinct (map fst (typedefs (mergeTypeTable table tt)))"
    using Cons.prems by (simp add: mergeTypeTable_def distinct_set_all)
  from Cons.IH[OF this] show ?case by simp
qed

lemma buildTypeTable_fields:
  "typedefs (buildTypeTable tables)
     = fst (mergeVendorTypedefs (typedefs (fold mergeTypeTable tables emptyTypeTable)))"
  "types (buildTypeTable tables)
     = updateLeafTypes (fst (mergeVendorTypedefs (typedefs (fold mergeTypeTable tables emptyTypeTable))))
         (snd (mergeVendorTypedefs (typedefs (fold mergeTypeTable tables emptyTypeTable))))
         (types (fold mergeTypeTable tables emptyTypeTable))"
  by (simp_all add: buildTypeTable_def Let_def case_prod_beta)

lemma emptyTypeTable_distinct:
  "distinct (map fst (types (emptyTypeTable :: ('r, 'i, 'o) typeTable)))
   \<and> distinct (map fst (typedefs (emptyTypeTable :: ('r, 'i, 'o) typeTable)))"
  by (simp add: emptyTypeTable_def)

text \<open>
  C8, as step 6 of \<open>loadYangInputs\<close> has it. Let \<open>V\<close> be a typedef of the merged type
  table whose name begins with a vendor prefix, \<open>B\<close> the name with the prefix stripped,
  both typedefs carrying enum bijections.
  \<^item> Whenever the loop reaches \<open>V\<close> with both typedefs present and carrying enums, it
    replaces the typedef \<open>B\<close> by the vendor typedef's info with the merged enum and
    \<open>original = B\<close>, and records \<open>B\<close> in \<open>mergedTypedefs\<close>.
  \<^item> The merged enum's \<open>nameToValue\<close> and \<open>valueToName\<close> hold every entry of the base
    enum and of the vendor enum, the vendor's entry winning on a key both have.
  \<^item> When \<open>V\<close> is the only vendor-prefixed typedef whose stripped name is \<open>B\<close>, and
    \<open>V\<close> is not itself the stripped name of a typedef, the typedef \<open>B\<close> of the built
    table is that merge of the two typedefs as loaded, and \<open>B\<close> is recorded as merged.
  \<^item> Every \<open>types[path]\<close> whose \<open>original\<close> is a non-empty name recorded as merged is,
    in the built table, the typedef of that name (which exists).
\<close>

theorem vendor_typedefs_merged:
  fixes tables :: "('r, 'i, 'o) typeTable list"
  assumes tt0: "tt0 = fold mergeTypeTable tables emptyTypeTable"
    and p: "pfx \<in> set vendorPrefixes" and sw: "startsWith V pfx"
    and B: "B = drop (length pfx) V"
    and v: "map_of (typedefs tt0) V = Some vt" and b: "map_of (typedefs tt0) B = Some bt"
    and be: "ti_enum bt = Some be" and ve: "ti_enum vt = Some ve"
    and kd: "enumKeysDistinct be \<and> enumKeysDistinct ve"
  shows "(\<forall>(st :: (string \<times> 'r typeInfo) list \<times> string set) vt' bt' be' ve'.
            map_of (fst st) V = Some vt' \<and> map_of (fst st) B = Some bt'
            \<and> ti_enum bt' = Some be' \<and> ti_enum vt' = Some ve' \<longrightarrow>
            mergeTypedefEntry V st =
              (map_set (fst st) B
                 (vt'\<lparr> ti_enum := Some (mergedEnum be' ve'), ti_original := Some B \<rparr>),
               insert B (snd st)))
       \<and> map_of (nameToValue (mergedEnum be ve))
            = map_of (nameToValue be) ++ map_of (nameToValue ve)
       \<and> map_of (valueToName (mergedEnum be ve))
            = map_of (valueToName be) ++ map_of (valueToName ve)
       \<and> ((\<forall>name \<in> fst ` set (typedefs tt0). name \<noteq> V \<longrightarrow> B \<notin> set (vendorBases name))
            \<and> (\<forall>name \<in> fst ` set (typedefs tt0). V \<notin> set (vendorBases name)) \<longrightarrow>
            map_of (typedefs (buildTypeTable tables)) B =
              Some (vt\<lparr> ti_enum := Some (mergedEnum be ve), ti_original := Some B \<rparr>)
            \<and> B \<in> snd (mergeVendorTypedefs (typedefs tt0)))
       \<and> (\<forall>path info base.
            map_of (types tt0) path = Some info \<and> ti_original info = Some base
            \<and> base \<noteq> [] \<and> base \<in> snd (mergeVendorTypedefs (typedefs tt0)) \<longrightarrow>
            map_of (types (buildTypeTable tables)) path
              = map_of (typedefs (buildTypeTable tables)) base
            \<and> map_of (typedefs (buildTypeTable tables)) base \<noteq> None)"
proof (intro conjI allI impI)
  fix st :: "(string \<times> 'r typeInfo) list \<times> string set"
    and vt' bt' :: "'r typeInfo" and be' ve'
  assume "map_of (fst st) V = Some vt' \<and> map_of (fst st) B = Some bt'
            \<and> ti_enum bt' = Some be' \<and> ti_enum vt' = Some ve'"
  then show "mergeTypedefEntry V st =
              (map_set (fst st) B
                 (vt'\<lparr> ti_enum := Some (mergedEnum be' ve'), ti_original := Some B \<rparr>),
               insert B (snd st))"
    using mergeTypedefEntry_hit[OF p sw, of st vt' bt' be' ve'] by (simp add: B)
next
  show "map_of (nameToValue (mergedEnum be ve))
            = map_of (nameToValue be) ++ map_of (nameToValue ve)"
    using kd by (simp add: mergedEnum_maps)
  show "map_of (valueToName (mergedEnum be ve))
            = map_of (valueToName be) ++ map_of (valueToName ve)"
    using kd by (simp add: mergedEnum_maps)
next
  assume sole: "(\<forall>name \<in> fst ` set (typedefs tt0). name \<noteq> V \<longrightarrow> B \<notin> set (vendorBases name))
            \<and> (\<forall>name \<in> fst ` set (typedefs tt0). V \<notin> set (vendorBases name))"
  have d: "distinct (map fst (typedefs tt0))"
    unfolding tt0 using merged_tables_distinct[OF emptyTypeTable_distinct, of tables] by simp
  note m = sole_vendor_merge[OF d p sw v b[unfolded B] be ve sole[THEN conjunct1, unfolded B]
      sole[THEN conjunct2]]
  from m show "map_of (typedefs (buildTypeTable tables)) B =
              Some (vt\<lparr> ti_enum := Some (mergedEnum be ve), ti_original := Some B \<rparr>)"
    by (simp add: buildTypeTable_fields tt0 B)
  from m show "B \<in> snd (mergeVendorTypedefs (typedefs tt0))"
    by (simp add: B)
next
  fix path info base
  assume h: "map_of (types tt0) path = Some info \<and> ti_original info = Some base
            \<and> base \<noteq> [] \<and> base \<in> snd (mergeVendorTypedefs (typedefs tt0))"
  have d: "distinct (map fst (types tt0))"
    unfolding tt0 using merged_tables_distinct[OF emptyTypeTable_distinct, of tables] by simp
  from h mergeVendorTypedefs_known[of "typedefs tt0"] obtain md where
    md: "map_of (fst (mergeVendorTypedefs (typedefs tt0))) base = Some md"
        "ti_original md = Some base"
    by (auto simp: mergedKnown_def)
  then have same: "md\<lparr> ti_original := Some base \<rparr> = md" by simp
  have "types (buildTypeTable tables) =
      updateLeafTypes (fst (mergeVendorTypedefs (typedefs tt0)))
        (snd (mergeVendorTypedefs (typedefs tt0))) (types tt0)"
    by (simp add: buildTypeTable_fields tt0)
  then have "map_of (types (buildTypeTable tables)) path =
      map_option (rewrittenType (fst (mergeVendorTypedefs (typedefs tt0)))
              (snd (mergeVendorTypedefs (typedefs tt0)))) (map_of (types tt0) path)"
    by (simp only: updateLeafTypes_lookup[OF d])
  also have "\<dots> = Some (rewrittenType (fst (mergeVendorTypedefs (typedefs tt0)))
              (snd (mergeVendorTypedefs (typedefs tt0))) info)"
    using h[THEN conjunct1] by simp
  also have "\<dots> = Some md"
    using h md same by (simp add: rewrittenType_def)
  finally show "map_of (types (buildTypeTable tables)) path
              = map_of (typedefs (buildTypeTable tables)) base"
    using md by (simp add: buildTypeTable_fields tt0[symmetric])
  from md show "map_of (typedefs (buildTypeTable tables)) base \<noteq> None"
    by (simp add: buildTypeTable_fields tt0[symmetric])
qed

lemma merge_vendorTable: "fold mergeTypeTable [vendorTable] emptyTypeTable = vendorTable"
  by (simp add: mergeTypeTable_def vendorTable_def emptyTypeTable_def set_all_def)

lemma merge_twoVendorTable:
  "fold mergeTypeTable [twoVendorTable] emptyTypeTable = twoVendorTable"
  by (simp add: mergeTypeTable_def twoVendorTable_def emptyTypeTable_def set_all_def)

lemma mergedEnum_port_type:
  "mergedEnum \<lparr> nameToValue = [(''copper'', 0)], valueToName = [(0, ''copper'')] \<rparr>
       \<lparr> nameToValue = [(''sfp'', 1)], valueToName = [(1, ''sfp'')] \<rparr>
   = \<lparr> nameToValue = [(''copper'', 0), (''sfp'', 1)],
       valueToName = [(0, ''copper''), (1, ''sfp'')] \<rparr>"
  by (simp add: mergedEnum_def mapFromEntries_def set_all_def)

theorem vendor_typedefs_merged_witness:
  "mergeTypedefEntry ''mchp-port-type'' (typedefs vendorTable, {})
     = (map_set (typedefs vendorTable) ''port-type''
          (enumType [(''copper'', 0), (''sfp'', 1)] ''port-type''), {''port-type''})
   \<and> map_of (typedefs (buildTypeTable [vendorTable])) ''port-type''
       = Some (enumType [(''copper'', 0), (''sfp'', 1)] ''port-type'')
   \<and> ''port-type'' \<in> snd (mergeVendorTypedefs (typedefs vendorTable))
   \<and> map_of (types (buildTypeTable [vendorTable])) ''ports/port/type''
       = Some (enumType [(''copper'', 0), (''sfp'', 1)] ''port-type'')"
proof -
  let ?be = "\<lparr> nameToValue = [(''copper'', 0)], valueToName = [(0, ''copper'')] \<rparr>"
  let ?ve = "\<lparr> nameToValue = [(''sfp'', 1)], valueToName = [(1, ''sfp'')] \<rparr>"
  have tt0: "vendorTable = fold mergeTypeTable [vendorTable] emptyTypeTable"
    by (simp only: merge_vendorTable)
  have p: "''mchp-'' \<in> set vendorPrefixes" by (simp add: vendorPrefixes_def)
  have sw: "startsWith ''mchp-port-type'' ''mchp-''" by (simp add: startsWith_def)
  have B: "''port-type'' = drop (length ''mchp-'') ''mchp-port-type''" by simp
  have v: "map_of (typedefs vendorTable) ''mchp-port-type''
      = Some (enumType [(''sfp'', 1)] ''mchp-port-type'')"
    by (simp add: vendorTable_def)
  have b: "map_of (typedefs vendorTable) ''port-type''
      = Some (enumType [(''copper'', 0)] ''port-type'')"
    by (simp add: vendorTable_def)
  have be: "ti_enum (enumType [(''copper'', 0)] ''port-type'') = Some ?be"
    by (simp add: enumType_def)
  have ve: "ti_enum (enumType [(''sfp'', 1)] ''mchp-port-type'') = Some ?ve"
    by (simp add: enumType_def)
  have kd: "enumKeysDistinct ?be \<and> enumKeysDistinct ?ve"
    by (simp add: enumKeysDistinct_def)
  note T = vendor_typedefs_merged[OF tt0 p sw B v b be ve kd]
  have m: "enumType [(''sfp'', 1)] ''mchp-port-type''
      \<lparr> ti_enum := Some (mergedEnum ?be ?ve), ti_original := Some ''port-type'' \<rparr>
      = enumType [(''copper'', 0), (''sfp'', 1)] ''port-type''"
    by (simp add: enumType_def mergedEnum_port_type)
  have s1: "map_of (fst (typedefs vendorTable, {} :: string set)) ''mchp-port-type''
        = Some (enumType [(''sfp'', 1)] ''mchp-port-type'')
      \<and> map_of (fst (typedefs vendorTable, {} :: string set)) ''port-type''
        = Some (enumType [(''copper'', 0)] ''port-type'')
      \<and> ti_enum (enumType [(''copper'', 0)] ''port-type'') = Some ?be
      \<and> ti_enum (enumType [(''sfp'', 1)] ''mchp-port-type'') = Some ?ve"
    using v b be ve by simp
  have c1: "mergeTypedefEntry ''mchp-port-type'' (typedefs vendorTable, {})
     = (map_set (typedefs vendorTable) ''port-type''
          (enumType [(''copper'', 0), (''sfp'', 1)] ''port-type''), {''port-type''})"
    using T[THEN conjunct1, rule_format, OF s1] by (simp add: m)
  have sole: "(\<forall>name \<in> fst ` set (typedefs vendorTable).
         name \<noteq> ''mchp-port-type'' \<longrightarrow> ''port-type'' \<notin> set (vendorBases name))
      \<and> (\<forall>name \<in> fst ` set (typedefs vendorTable).
         ''mchp-port-type'' \<notin> set (vendorBases name))"
    by (simp add: vendorTable_def vendorBases_def vendorPrefixes_def startsWith_def)
  note c23 = T[THEN conjunct2, THEN conjunct2, THEN conjunct2, THEN conjunct1, THEN mp, OF sole]
  have c2: "map_of (typedefs (buildTypeTable [vendorTable])) ''port-type''
       = Some (enumType [(''copper'', 0), (''sfp'', 1)] ''port-type'')"
    using c23[THEN conjunct1] by (simp only: m)
  have c3: "''port-type'' \<in> snd (mergeVendorTypedefs (typedefs vendorTable))"
    using c23[THEN conjunct2] .
  have s4: "map_of (types vendorTable) ''ports/port/type''
        = Some (enumType [(''copper'', 0)] ''port-type'')
      \<and> ti_original (enumType [(''copper'', 0)] ''port-type'') = Some ''port-type''
      \<and> ''port-type'' \<noteq> []
      \<and> ''port-type'' \<in> snd (mergeVendorTypedefs (typedefs vendorTable))"
    using c3 by (simp add: vendorTable_def enumType_def)
  have c4: "map_of (types (buildTypeTable [vendorTable])) ''ports/port/type''
       = Some (enumType [(''copper'', 0), (''sfp'', 1)] ''port-type'')"
    using T[THEN conjunct2, THEN conjunct2, THEN conjunct2, THEN conjunct2, rule_format,
        OF s4, THEN conjunct1] c2 by simp
  from c1 c2 c3 c4 show ?thesis by simp
qed

lemma mergeVendorTypedefs_twoVendorTable:
  "mergeVendorTypedefs (typedefs twoVendorTable)
   = ([(''foo'', enumType [(''a'', 0), (''x'', 2)] ''foo''
                \<lparr> ti_enum := Some \<lparr> nameToValue = [(''a'', 0), (''x'', 2)],
                     valueToName = [(0, ''a''), (1, ''x''), (2, ''x'')] \<rparr> \<rparr>),
       (''mchp-foo'', enumType [(''x'', 1)] ''mchp-foo''),
       (''velocitysp-foo'', enumType [(''x'', 2)] ''velocitysp-foo'')], {''foo''})"
  by (simp add: mergeVendorTypedefs_def mergeTypedefEntry_def mergePrefix_def
      vendorPrefixes_def startsWith_def twoVendorTable_def enumType_def mergedEnum_def
      mapFromEntries_def set_all_def Let_def)

text \<open>
  With two vendor typedefs for one base, each is merged into the base in typedef order,
  and the later one wins on a key both have: \<open>mchp-foo\<close> has the entry \<open>x \<mapsto> 1\<close>, and
  the built typedef \<open>foo\<close> maps \<open>x\<close> to \<open>2\<close>, the value of \<open>velocitysp-foo\<close>.
\<close>

theorem two_vendor_typedefs_counterexample:
  "map_option ti_enum (map_of (typedefs twoVendorTable) ''foo'')
     = Some (Some \<lparr> nameToValue = [(''a'', 0)], valueToName = [(0, ''a'')] \<rparr>)
   \<and> map_option ti_enum (map_of (typedefs twoVendorTable) ''mchp-foo'')
     = Some (Some \<lparr> nameToValue = [(''x'', 1)], valueToName = [(1, ''x'')] \<rparr>)
   \<and> startsWith ''mchp-foo'' ''mchp-''
   \<and> ''foo'' \<in> snd (mergeVendorTypedefs (typedefs twoVendorTable))
   \<and> map_option ti_enum (map_of (typedefs (buildTypeTable [twoVendorTable])) ''foo'')
     = Some (Some \<lparr> nameToValue = [(''a'', 0), (''x'', 2)],
                         valueToName = [(0, ''a''), (1, ''x''), (2, ''x'')] \<rparr>)
   \<and> (''x'', 1) \<notin> set [(''a'', 0 :: int), (''x'', 2)]"
proof -
  have a: "map_option ti_enum (map_of (typedefs twoVendorTable) ''foo'')
        = Some (Some \<lparr> nameToValue = [(''a'', 0)], valueToName = [(0, ''a'')] \<rparr>)
      \<and> map_option ti_enum (map_of (typedefs twoVendorTable) ''mchp-foo'')
        = Some (Some \<lparr> nameToValue = [(''x'', 1)], valueToName = [(1, ''x'')] \<rparr>)
      \<and> startsWith ''mchp-foo'' ''mchp-''"
    by (simp add: twoVendorTable_def startsWith_def enumType_def)
  have b: "typedefs (buildTypeTable [twoVendorTable])
      = fst (mergeVendorTypedefs (typedefs twoVendorTable))"
    using buildTypeTable_fields[of "[twoVendorTable]"]
    by (simp only: merge_twoVendorTable)
  from a show ?thesis
    by (simp add: b mergeVendorTypedefs_twoVendorTable enumType_def)
qed

section \<open>Identity resolution\<close>






end
